theory Spec2Isabelle
  imports Complex_Main
begin

section \<open>JavaScript helpers\<close>

text \<open>
  \<open>String(n)\<close> on a non-negative integer below \<open>10^21\<close> prints its decimal digits;
  on a negative integer it prints a minus sign first. \<open>padStart(n, c)\<close> fills a
  string on the left up to length \<open>n\<close>.
\<close>

definition digit_char :: "nat \<Rightarrow> char" where
  "digit_char d = ''0123456789'' ! (d mod 10)"

fun string_of_nat :: "nat \<Rightarrow> string" where
  "string_of_nat n =
     (if n < 10 then [digit_char n]
      else string_of_nat (n div 10) @ [digit_char (n mod 10)])"

declare string_of_nat.simps [simp del]

definition String_num :: "int \<Rightarrow> string" where
  "String_num i = (if i < 0 then CHR ''-'' # string_of_nat (nat (- i)) else string_of_nat (nat i))"

definition padStart :: "nat \<Rightarrow> char \<Rightarrow> string \<Rightarrow> string" where
  "padStart n c s = replicate (n - length s) c @ s"

text \<open>Reading a decimal string back, to state what a printed number denotes.\<close>

definition is_digit :: "char \<Rightarrow> bool" where
  "is_digit c = (c \<in> set ''0123456789'')"

definition digit_val :: "char \<Rightarrow> nat" where
  "digit_val c = of_char c - 48"

definition nat_of_string :: "string \<Rightarrow> nat" where
  "nat_of_string s = foldl (\<lambda>acc c. 10 * acc + digit_val c) 0 s"

section \<open>Double-precision numbers\<close>

text \<open>
  A JavaScript number is an IEEE 754 binary64 value, and an arithmetic operation returns
  the exact result rounded to the nearest such value, a tie going to the even
  significand. A finite double is a real number, so the operations are modelled on
  \<open>real\<close>: for a positive \<open>x\<close>, \<open>binary_exponent x\<close> is the \<open>e\<close> with
  \<open>2^e \<le> x < 2^(e+1)\<close> and \<open>quantum x\<close> the spacing \<open>2^(e - 52)\<close> of the doubles around
  \<open>x\<close> (\<open>2^-1074\<close> in the subnormal range); \<open>round_double\<close> rounds to the nearest multiple
  of the quantum. \<open>fmul\<close>, \<open>fadd\<close> and \<open>fdiv\<close> are JavaScript's \<open>*\<close>, \<open>+\<close> and \<open>/\<close>.
  Results of magnitude \<open>2^1024\<close> and more, which JavaScript turns into \<open>Infinity\<close>, are
  not modelled; the numbers of a run are counts and milliseconds.
\<close>

fun log2_floor :: "nat \<Rightarrow> nat" where
  "log2_floor n = (if n < 2 then 0 else Suc (log2_floor (n div 2)))"

declare log2_floor.simps [simp del]

definition binary_exponent :: "real \<Rightarrow> int" where
  "binary_exponent x =
     (if 1 \<le> x then int (log2_floor (nat \<lfloor>x\<rfloor>))
      else - int (Suc (log2_floor (nat \<lceil>1 / x\<rceil> - 1))))"

definition round_half_even :: "real \<Rightarrow> int" where
  "round_half_even m =
     (let f = \<lfloor>m\<rfloor>; d = m - of_int f
      in if d < 1 / 2 then f else if 1 / 2 < d then f + 1 else if even f then f else f + 1)"

definition quantum :: "real \<Rightarrow> real" where
  "quantum x = 2 powi (max (binary_exponent x) (- 1022) - 52)"

definition round_double :: "real \<Rightarrow> real" where
  "round_double x =
     (if x = 0 then 0
      else sgn x * of_int (round_half_even (\<bar>x\<bar> / quantum \<bar>x\<bar>)) * quantum \<bar>x\<bar>)"

definition fmul :: "real \<Rightarrow> real \<Rightarrow> real" where
  "fmul x y = round_double (x * y)"

definition fadd :: "real \<Rightarrow> real \<Rightarrow> real" where
  "fadd x y = round_double (x + y)"

definition fdiv :: "real \<Rightarrow> real \<Rightarrow> real" where
  "fdiv x y = round_double (x / y)"

definition is_double :: "real \<Rightarrow> bool" where
  "is_double x = (round_double x = x)"

section \<open>Random parameters\<close>

text \<open>
  \<open>generateRandomDateString\<close> and \<open>generateRandomNIN\<close> (the same text in both versions
  of the page). Each \<open>Math.random()\<close> is a parameter \<open>r\<close>, a double with
  \<open>0 \<le> r < 1\<close>; the product is a double-precision product, and \<open>Math.floor\<close> of a
  double is exact.
\<close>

definition generateRandomDateString :: "real \<Rightarrow> real \<Rightarrow> string" where
  "generateRandomDateString r1 r2 =
     (let year = \<lfloor>fmul r1 100\<rfloor> + 1400;
          month = padStart 2 CHR ''0'' (String_num (\<lfloor>fmul r2 12\<rfloor> + 1))
      in String_num year @ ''-'' @ month)"

definition generateRandomNIN :: "real \<Rightarrow> string" where
  "generateRandomNIN r = String_num (\<lfloor>fmul r 900000000\<rfloor> + 100000000)"


section \<open>Data model\<close>

text \<open>
  \<open>ApiResult\<close>, \<open>ResponseTimeData\<close> and the statistics object, as the page declares
  them. Field names that occur in two interfaces carry a suffix here (\<open>_r\<close> for a
  result, \<open>_pt\<close> for a graph point). The opaque \<open>response\<close> payload and the wall-clock
  \<open>timestamp\<close> are left out; a JavaScript number is a \<open>real\<close> where it is divided and
  a \<open>nat\<close> or \<open>int\<close> where it only counts.
\<close>

datatype call_status = success_status | error_status

record ApiResult =
  id_r :: nat
  dateString :: string
  nin :: string
  status :: call_status
  error_r :: "string option"
  duration :: real
  statusCode :: "nat option"

record ResponseTimeData =
  time :: string
  duration_pt :: real
  success_pt :: nat
  error_pt :: nat

record stats =
  total :: nat
  success :: nat
  error :: nat
  averageTime :: real

definition zero_stats :: stats where
  "zero_stats = \<lparr>total = 0, success = 0, error = 0, averageTime = 0\<rparr>"

text \<open>
  A thrown JavaScript error object, with the fields the code reads. A missing
  \<open>message\<close> is the empty string (both are falsy); \<open>toString_e\<close> is what
  \<open>toString()\<close> returns, \<open>None\<close> for an object without that method.
\<close>

record js_error =
  name :: string
  message :: string
  code :: "string option"
  statusCode_e :: "int option"
  toString_e :: "string option"

text \<open>Truthiness of the values the code tests with \<open>||\<close>, \<open>&&\<close> and \<open>!\<close>.\<close>

definition truthy_str :: "string option \<Rightarrow> bool" where
  "truthy_str v = (case v of None \<Rightarrow> False | Some s \<Rightarrow> s \<noteq> [])"

definition or_empty :: "string option \<Rightarrow> string" where
  "or_empty v = (case v of None \<Rightarrow> [] | Some s \<Rightarrow> s)"

section \<open>The proxy route\<close>

text \<open>
  What the browser receives from \<open>fetch\<close>: a rejection, or an HTTP response whose
  body \<open>response.json()\<close> fails to parse, parses to \<open>null\<close>, or parses to an object
  with the fields of \<open>ProxyApiResponse\<close>. \<open>response.ok\<close> is the status being 2xx.
\<close>

record proxy_data =
  pd_status :: "nat option"
  pd_ok :: bool
  pd_error :: "string option"
  pd_responseTime :: "real option"

datatype json_body = ParseFailure | NullBody | Body proxy_data

record http_response =
  resp_status :: nat
  resp_statusText :: string
  resp_json :: json_body

definition resp_ok :: "http_response \<Rightarrow> bool" where
  "resp_ok r = (200 \<le> resp_status r \<and> resp_status r \<le> 299)"

datatype fetch_outcome = Rejects js_error | Responds http_response

text \<open>
  The route handler \<open>GET\<close>. Its request to the API either ends with a status code and a
  measured time, or fails with a Node error and a measured time (the \<open>reject\<close> of
  \<open>req.on('error')\<close>, which the \<open>catch\<close> block turns into a 500 answer). The
  handler sets the status only; the status text is the standard phrase for it. The
  \<open>data\<close>, \<open>details\<close> and \<open>code\<close> fields of the body are not read by the page's
  statistics and are left out.
\<close>

datatype upstream = UpstreamResponse "nat option" real | UpstreamError js_error real

definition GET :: "string option \<Rightarrow> string option \<Rightarrow> upstream \<Rightarrow> http_response" where
  "GET dateString_q nin_q up =
     (if \<not> truthy_str dateString_q \<or> \<not> truthy_str nin_q then
        \<lparr>resp_status = 400, resp_statusText = ''Bad Request'',
         resp_json = Body \<lparr>pd_status = None, pd_ok = False,
           pd_error = Some ''Missing required parameters: dateString and nin'',
           pd_responseTime = None\<rparr>\<rparr>
      else case up of
        UpstreamResponse sc t \<Rightarrow>
          (let st = (case sc of None \<Rightarrow> 200 | Some c \<Rightarrow> if c = 0 then 200 else c) in
           \<lparr>resp_status = 200, resp_statusText = ''OK'',
            resp_json = Body \<lparr>pd_status = Some st, pd_ok = (200 \<le> st \<and> st < 300),
              pd_error = None, pd_responseTime = Some t\<rparr>\<rparr>)
      | UpstreamError actualError t \<Rightarrow>
          (let errorMessage = (if message actualError \<noteq> [] then message actualError
                               else ''Failed to fetch'');
               detailedError =
                 (if code actualError = Some ''CERT_HAS_EXPIRED''
                     \<or> code actualError = Some ''UNABLE_TO_VERIFY_LEAF_SIGNATURE''
                  then ''SSL Certificate Error: '' @ errorMessage
                       @ ''. The API may be using a self-signed certificate.''
                  else if code actualError = Some ''ENOTFOUND''
                     \<or> code actualError = Some ''ECONNREFUSED''
                  then ''Connection Error: '' @ errorMessage @ ''. Cannot reach the API server.''
                  else errorMessage)
           in \<lparr>resp_status = 500, resp_statusText = ''Internal Server Error'',
               resp_json = Body \<lparr>pd_status = None, pd_ok = False,
                 pd_error = Some detailedError, pd_responseTime = Some t\<rparr>\<rparr>))"

section \<open>The call executor\<close>

text \<open>
  \<open>fetch\<close> is the platform's: handed a signal that is already aborted it rejects with
  an \<open>AbortError\<close> and sends nothing; otherwise the network decides.
\<close>

definition AbortError :: js_error where
  "AbortError = \<lparr>name = ''AbortError'', message = ''signal is aborted without reason'',
     code = None, statusCode_e = None, toString_e = Some ''AbortError: signal is aborted without reason''\<rparr>"

definition fetch :: "bool \<Rightarrow> fetch_outcome \<Rightarrow> fetch_outcome" where
  "fetch signal_aborted net = (if signal_aborted then Rejects AbortError else net)"

text \<open>
  \<open>makeApiCallWithParams\<close> (the same branches in both versions of the page). Reading
  a field of a \<open>null\<close> body throws a \<open>TypeError\<close>, which the outer \<open>catch\<close> handles like
  a rejected fetch. The log lines the function writes are not modelled.
\<close>

definition catch_result :: "nat \<Rightarrow> string \<Rightarrow> string \<Rightarrow> js_error \<Rightarrow> ApiResult" where
  "catch_result i ds n e =
     (let errorMessage =
            (if name e = ''AbortError'' then ''Request aborted''
             else if message e \<noteq> [] then message e
             else case toString_e e of Some t \<Rightarrow> t | None \<Rightarrow> ''Unknown error'')
      in \<lparr>id_r = i, dateString = ds, nin = n, status = error_status,
          error_r = Some errorMessage, duration = 0, statusCode = Some 0\<rparr>)"

definition null_TypeError :: js_error where
  "null_TypeError = \<lparr>name = ''TypeError'',
     message = ''Cannot read properties of null (reading 'responseTime')'',
     code = None, statusCode_e = None, toString_e = None\<rparr>"

definition makeApiCallWithParams ::
    "nat \<Rightarrow> string \<Rightarrow> string \<Rightarrow> bool \<Rightarrow> fetch_outcome \<Rightarrow> ApiResult" where
  "makeApiCallWithParams i ds n signal_aborted net =
     (case fetch signal_aborted net of
        Rejects e \<Rightarrow> catch_result i ds n e
      | Responds response \<Rightarrow>
          (case resp_json response of
             ParseFailure \<Rightarrow>
               \<lparr>id_r = i, dateString = ds, nin = n, status = error_status,
                error_r = Some (''Failed to parse response: ''
                   @ string_of_nat (resp_status response) @ '' '' @ resp_statusText response),
                duration = 0,
                statusCode = Some (if resp_status response \<noteq> 0 then resp_status response else 500)\<rparr>
           | NullBody \<Rightarrow> catch_result i ds n null_TypeError
           | Body proxyData \<Rightarrow>
               (let apiResponseTime = (case pd_responseTime proxyData of None \<Rightarrow> 0 | Some t \<Rightarrow> t);
                    sc = (case pd_status proxyData of
                            Some c \<Rightarrow> if c \<noteq> 0 then c
                                      else if resp_status response \<noteq> 0 then resp_status response else 500
                          | None \<Rightarrow> if resp_status response \<noteq> 0 then resp_status response else 500)
                in if \<not> resp_ok response \<or> truthy_str (pd_error proxyData) then
                     \<lparr>id_r = i, dateString = ds, nin = n, status = error_status,
                      error_r = Some (if truthy_str (pd_error proxyData) then or_empty (pd_error proxyData)
                                      else ''Proxy error: '' @ string_of_nat (resp_status response)
                                           @ '' '' @ resp_statusText response),
                      duration = apiResponseTime, statusCode = Some sc\<rparr>
                   else
                     \<lparr>id_r = i, dateString = ds, nin = n,
                      status = (if pd_ok proxyData then success_status else error_status),
                      error_r = None, duration = apiResponseTime, statusCode = Some sc\<rparr>)))"


section \<open>The response-time series\<close>

text \<open>
  \<open>xs.slice(start)\<close>: a negative \<open>start\<close> counts from the end and is cut at the
  front of the array; \<open>-0\<close> is \<open>0\<close>, so \<open>slice(-0)\<close> is the whole array.
\<close>

definition js_slice :: "int \<Rightarrow> 'a list \<Rightarrow> 'a list" where
  "js_slice start xs =
     (if start < 0 then drop (nat (int (length xs) + start)) xs else drop (nat start) xs)"

text \<open>
  The current page (\<open>app/page.tsx\<close>) keeps the sequence counter and a buffer in refs and
  the series itself in React state. \<open>addGraphDataPointToRef\<close> pushes to the buffer;
  the animation-frame callback of \<open>updateUIAsync\<close> moves the buffer into the series,
  trimming to \<open>graphMaxPoints\<close>; the \<open>finally\<close> block of \<open>runBatchCalls\<close> moves what
  is left with \<open>slice(-100)\<close>.
\<close>

record graph_state =
  graphSequence :: nat
  graphDataBuffer :: "ResponseTimeData list"
  responseTimeData :: "ResponseTimeData list"

definition empty_graph :: graph_state where
  "empty_graph = \<lparr>graphSequence = 0, graphDataBuffer = [], responseTimeData = []\<rparr>"

definition graph_point :: "nat \<Rightarrow> ApiResult \<Rightarrow> ResponseTimeData" where
  "graph_point s result =
     \<lparr>time = string_of_nat s, duration_pt = duration result,
      success_pt = (if status result = success_status then 1 else 0),
      error_pt = (if status result = error_status then 1 else 0)\<rparr>"

definition addGraphDataPointToRef :: "graph_state \<Rightarrow> ApiResult \<Rightarrow> graph_state" where
  "addGraphDataPointToRef g result =
     g\<lparr>graphSequence := graphSequence g + 1,
       graphDataBuffer := graphDataBuffer g @ [graph_point (graphSequence g + 1) result]\<rparr>"

definition updateUIAsync_frame :: "int \<Rightarrow> graph_state \<Rightarrow> graph_state" where
  "updateUIAsync_frame graphMaxPoints g =
     (if length (graphDataBuffer g) > 0 then
        (let prev = responseTimeData g; buffer = graphDataBuffer g;
             totalLength = length prev + length buffer
         in g\<lparr>graphDataBuffer := [],
              responseTimeData :=
                (if int totalLength \<le> graphMaxPoints then prev @ buffer
                 else js_slice (- (graphMaxPoints - int (length buffer))) prev @ buffer)\<rparr>)
      else g)"

definition finally_flush :: "graph_state \<Rightarrow> graph_state" where
  "finally_flush g =
     (if length (graphDataBuffer g) > 0 then
        g\<lparr>graphDataBuffer := [],
          responseTimeData := js_slice (- 100) (responseTimeData g @ graphDataBuffer g)\<rparr>
      else g)"

text \<open>
  The earlier page (\<open>src/unnamed/part_002\<close>, the version with a parallel mode) has
  \<open>addGraphDataPoint\<close>: it pushes to the buffer and, when the buffer holds five points
  or no timer is pending, moves the buffer into the series with \<open>slice(-100)\<close>.
  The second branch, which would start the timer, asks for no timer to be pending,
  and with no timer pending the first branch is taken: it never runs. The timer flag
  is kept as the code has it.
\<close>

record graph_state_timer =
  graphSequence_t :: nat
  graphDataBuffer_t :: "ResponseTimeData list"
  graphUpdateTimer :: bool
  responseTimeData_t :: "ResponseTimeData list"

definition addGraphDataPoint :: "graph_state_timer \<Rightarrow> ApiResult \<Rightarrow> graph_state_timer" where
  "addGraphDataPoint g result =
     (let s = graphSequence_t g + 1;
          buffer = graphDataBuffer_t g @ [graph_point s result]
      in if length buffer \<ge> 5 \<or> \<not> graphUpdateTimer g then
           g\<lparr>graphSequence_t := s, graphDataBuffer_t := [], graphUpdateTimer := False,
             responseTimeData_t := js_slice (- 100) (responseTimeData_t g @ buffer)\<rparr>
         else if \<not> graphUpdateTimer g then
           g\<lparr>graphSequence_t := s, graphDataBuffer_t := buffer, graphUpdateTimer := True\<rparr>
         else g\<lparr>graphSequence_t := s, graphDataBuffer_t := buffer\<rparr>)"

section \<open>The batch run of the current page\<close>

text \<open>
  Everything outside the function is a field of the environment: the answer of
  \<open>/api/test-values\<close>, the moment the user aborts (\<open>abortAt = Some k\<close>: the check before
  call \<open>k\<close> is the first that reads \<open>signal.aborted\<close> as true), what the network does
  with call \<open>k\<close>, the three \<open>Math.random()\<close> draws of call \<open>k\<close>, whether an animation
  frame ran while call \<open>k\<close> was awaited, and the configured \<open>graphMaxPoints\<close>.
\<close>

datatype test_values_response = FetchThrows | NotOk | TestValues "string option" "string option"

record env =
  testValues :: test_values_response
  abortAt :: "nat option"
  network :: "nat \<Rightarrow> fetch_outcome"
  random :: "nat \<Rightarrow> real \<times> real \<times> real"
  frame :: "nat \<Rightarrow> bool"
  graphMaxPoints :: int

definition signal_aborted :: "env \<Rightarrow> nat \<Rightarrow> bool" where
  "signal_aborted e k = (case abortAt e of None \<Rightarrow> False | Some a \<Rightarrow> a \<le> k)"

definition correctValues :: "test_values_response \<Rightarrow> string \<times> string" where
  "correctValues tv =
     (case tv of TestValues d n \<Rightarrow> (or_empty d, or_empty n) | _ \<Rightarrow> ([], []))"

definition random_params :: "env \<Rightarrow> nat \<Rightarrow> string \<times> string" where
  "random_params e k =
     (case random e k of (r1, r2, r3) \<Rightarrow> (generateRandomDateString r1 r2, generateRandomNIN r3))"

definition makeApiCall :: "env \<Rightarrow> nat \<Rightarrow> ApiResult" where
  "makeApiCall e k =
     (case random_params e k of (ds, n) \<Rightarrow>
        makeApiCallWithParams k ds n (signal_aborted e k) (network e k))"

text \<open>
  The trace is not in the source: it notes each call when it is issued (id and
  parameters) and each outcome when it is recorded (with the statistics as they then
  stand), so that properties of every point of a run can be stated.
\<close>

datatype event = Issued nat string string | Recorded ApiResult stats

record run_state =
  batchResults :: "ApiResult list"
  statsRef :: stats
  graph :: graph_state
  trace :: "event list"

definition init_state :: run_state where
  "init_state = \<lparr>batchResults = [], statsRef = zero_stats, graph = empty_graph, trace = []\<rparr>"

definition issue :: "nat \<Rightarrow> string \<Rightarrow> string \<Rightarrow> run_state \<Rightarrow> run_state" where
  "issue k ds n st = st\<lparr>trace := trace st @ [Issued k ds n]\<rparr>"

definition await_frame :: "env \<Rightarrow> nat \<Rightarrow> run_state \<Rightarrow> run_state" where
  "await_frame e k st =
     (if frame e k then st\<lparr>graph := updateUIAsync_frame (graphMaxPoints e) (graph st)\<rparr> else st)"

definition count_status :: "stats \<Rightarrow> ApiResult \<Rightarrow> stats" where
  "count_status s result =
     (let s1 = s\<lparr>total := total s + 1\<rparr>
      in if status result = success_status then s1\<lparr>success := success s1 + 1\<rparr>
         else s1\<lparr>error := error s1 + 1\<rparr>)"

definition record_first :: "run_state \<Rightarrow> ApiResult \<Rightarrow> run_state" where
  "record_first st result =
     (let s = (count_status (statsRef st) result)\<lparr>averageTime := duration result\<rparr>
      in st\<lparr>batchResults := batchResults st @ [result], statsRef := s,
            graph := addGraphDataPointToRef (graph st) result,
            trace := trace st @ [Recorded result s]\<rparr>)"

definition record_next :: "run_state \<Rightarrow> ApiResult \<Rightarrow> run_state" where
  "record_next st result =
     (let s1 = count_status (statsRef st) result;
          currentTotal = total s1;
          s = s1\<lparr>averageTime :=
                 (averageTime s1 * (real currentTotal - 1) + duration result) / real currentTotal\<rparr>
      in st\<lparr>batchResults := batchResults st @ [result], statsRef := s,
            graph := addGraphDataPointToRef (graph st) result,
            trace := trace st @ [Recorded result s]\<rparr>)"

function batch_loop :: "env \<Rightarrow> int \<Rightarrow> nat \<Rightarrow> run_state \<Rightarrow> run_state" where
  "batch_loop e remainingCalls i st =
     (if int i < remainingCalls then
        (if signal_aborted e (i + 2) then st
         else case random_params e (i + 2) of (ds, n) \<Rightarrow>
           batch_loop e remainingCalls (Suc i)
             (record_next (await_frame e (i + 2) (issue (i + 2) ds n st)) (makeApiCall e (i + 2))))
      else st)"
  by pat_completeness auto
termination
  by (relation "measure (\<lambda>(e, remainingCalls, i, st). nat (remainingCalls - int i))") auto

declare batch_loop.simps [simp del]

datatype 'a run_result = StartFailed 'a | Finished 'a

definition runBatchCalls :: "env \<Rightarrow> int \<Rightarrow> run_state run_result" where
  "runBatchCalls e count =
     (case correctValues (testValues e) of (correctDateString, correctNIN) \<Rightarrow>
        if correctDateString = [] \<or> correctNIN = [] then StartFailed init_state
        else
          (let st1 = (if \<not> signal_aborted e 1 then
                        record_first
                          (await_frame e 1 (issue 1 correctDateString correctNIN init_state))
                          (makeApiCallWithParams 1 correctDateString correctNIN
                             (signal_aborted e 1) (network e 1))
                      else init_state);
               st2 = batch_loop e (count - 1) 0 st1
           in Finished (st2\<lparr>graph := updateUIAsync_frame (graphMaxPoints e) (finally_flush (graph st2))\<rparr>)))"


section \<open>The batch run of the earlier page, with its two modes\<close>

text \<open>
  \<open>runBatchCalls\<close> of \<open>src/unnamed/part_002\<close> keeps the counters in local variables
  and publishes them with \<open>setStats\<close>: after the first call, then every 100 calls and
  on the last one in sequential mode, and after every batch in parallel mode. The
  published object is \<open>published\<close>; \<open>x / n || 0\<close> is \<open>0\<close> when \<open>0 / 0\<close> gives \<open>NaN\<close>.
  The graph and log updates of this version are outside the model of the run.
\<close>

datatype batch_mode = sequential | parallel

record modes_state =
  batchResults_m :: "ApiResult list"
  successCount :: nat
  errorCount :: nat
  totalTime :: real
  published :: stats
  trace_m :: "event list"

definition init_modes :: modes_state where
  "init_modes = \<lparr>batchResults_m = [], successCount = 0, errorCount = 0, totalTime = 0,
     published = zero_stats, trace_m = []\<rparr>"

definition current_stats :: "modes_state \<Rightarrow> stats" where
  "current_stats st =
     \<lparr>total = length (batchResults_m st), success = successCount st, error = errorCount st,
      averageTime = (if batchResults_m st = [] then 0
                     else totalTime st / real (length (batchResults_m st)))\<rparr>"

definition setStats :: "modes_state \<Rightarrow> modes_state" where
  "setStats st = st\<lparr>published := current_stats st\<rparr>"

definition issue_m :: "nat \<Rightarrow> string \<Rightarrow> string \<Rightarrow> modes_state \<Rightarrow> modes_state" where
  "issue_m k ds n st = st\<lparr>trace_m := trace_m st @ [Issued k ds n]\<rparr>"

definition note_recorded :: "ApiResult \<Rightarrow> modes_state \<Rightarrow> modes_state" where
  "note_recorded result st = st\<lparr>trace_m := trace_m st @ [Recorded result (current_stats st)]\<rparr>"

text \<open>Recording in the first call and in the sequential loop: two conditional additions.\<close>

definition record_seq :: "modes_state \<Rightarrow> ApiResult \<Rightarrow> modes_state" where
  "record_seq st result =
     note_recorded result
       (st\<lparr>batchResults_m := batchResults_m st @ [result],
           successCount := successCount st + (if status result = success_status then 1 else 0),
           errorCount := errorCount st + (if status result = error_status then 1 else 0),
           totalTime := totalTime st + duration result\<rparr>)"

text \<open>
  Recording in parallel mode, one entry of \<open>Promise.allSettled\<close> at a time: a fulfilled
  promise carries its result; for a rejected one the code builds an error result with
  the id \<open>startIdx + idx + 2\<close> and fresh random parameters.
\<close>

datatype settled = Fulfilled ApiResult | Rejected "string option" string string

definition record_settled :: "nat \<Rightarrow> modes_state \<Rightarrow> nat \<times> settled \<Rightarrow> modes_state" where
  "record_settled startIdx st entry =
     (case entry of
        (idx, Fulfilled apiResult) \<Rightarrow>
          note_recorded apiResult
            (st\<lparr>batchResults_m := batchResults_m st @ [apiResult],
                successCount := (if status apiResult = success_status then successCount st + 1
                                 else successCount st),
                errorCount := (if status apiResult = success_status then errorCount st
                               else errorCount st + 1),
                totalTime := totalTime st + duration apiResult\<rparr>)
      | (idx, Rejected reason ds n) \<Rightarrow>
          (let errorResult =
                 \<lparr>id_r = startIdx + idx + 2, dateString = ds, nin = n, status = error_status,
                  error_r = Some (if truthy_str reason then or_empty reason else ''Promise rejected''),
                  duration = 0, statusCode = None\<rparr>
           in note_recorded errorResult
                (st\<lparr>batchResults_m := batchResults_m st @ [errorResult],
                    errorCount := errorCount st + 1\<rparr>)))"

function sequential_loop :: "env \<Rightarrow> int \<Rightarrow> nat \<Rightarrow> modes_state \<Rightarrow> modes_state" where
  "sequential_loop e remainingCalls i st =
     (if int i < remainingCalls then
        (if signal_aborted e (i + 2) then st
         else case random_params e (i + 2) of (ds, n) \<Rightarrow>
           (let st1 = record_seq (issue_m (i + 2) ds n st) (makeApiCall e (i + 2));
                st2 = (if (i + 1) mod 100 = 0 \<or> int i = remainingCalls - 1 then setStats st1 else st1)
            in sequential_loop e remainingCalls (Suc i) st2))
      else st)"
  by pat_completeness auto
termination
  by (relation "measure (\<lambda>(e, remainingCalls, i, st). nat (remainingCalls - int i))") auto

declare sequential_loop.simps [simp del]

text \<open>
  One batch of the parallel loop: the inner \<open>for\<close> issues the calls \<open>startIdx .. endIdx - 1\<close>
  until it reads the signal as aborted; \<open>Promise.allSettled\<close> waits for all of them;
  \<open>forEach\<close> records them in the order they were issued. \<open>makeApiCall\<close> catches every
  failure, so each promise is fulfilled.
\<close>

definition issue_batch :: "env \<Rightarrow> nat \<Rightarrow> nat \<Rightarrow> nat list" where
  "issue_batch e startIdx endIdx =
     takeWhile (\<lambda>i. \<not> signal_aborted e (i + 2)) [startIdx..<endIdx]"

definition issue_call :: "env \<Rightarrow> modes_state \<Rightarrow> nat \<Rightarrow> modes_state" where
  "issue_call e st i = (case random_params e (i + 2) of (ds, n) \<Rightarrow> issue_m (i + 2) ds n st)"

definition run_batch :: "env \<Rightarrow> nat \<Rightarrow> nat \<Rightarrow> modes_state \<Rightarrow> modes_state" where
  "run_batch e startIdx endIdx st =
     (let issued = issue_batch e startIdx endIdx;
          st1 = foldl (issue_call e) st issued;
          batchResultsChunk = map (\<lambda>i. Fulfilled (makeApiCall e (i + 2))) issued;
          st2 = foldl (record_settled startIdx) st1 (enumerate 0 batchResultsChunk)
      in setStats st2)"

text \<open>
  The batch loop. \<open>threadCount\<close> comes from an input clamped to 1..50; for
  \<open>threadCount \<ge> 1\<close> the guard below is the loop condition
  \<open>batch < Math.ceil(remainingCalls / threadCount)\<close>. With \<open>threadCount = 0\<close> the bound
  would be \<open>Infinity\<close>; that case is outside the model.
\<close>

function parallel_loop :: "env \<Rightarrow> int \<Rightarrow> nat \<Rightarrow> nat \<Rightarrow> modes_state \<Rightarrow> modes_state" where
  "parallel_loop e remainingCalls threadCount batch st =
     (if 1 \<le> threadCount \<and> int batch < \<lceil>real_of_int remainingCalls / real threadCount\<rceil> then
        (if signal_aborted e (batch * threadCount + 2) then st
         else
           (let startIdx = batch * threadCount;
                endIdx = nat (min (int (startIdx + threadCount)) remainingCalls)
            in parallel_loop e remainingCalls threadCount (Suc batch)
                 (run_batch e startIdx endIdx st)))
      else st)"
  by pat_completeness auto
termination
  by (relation "measure (\<lambda>(e, remainingCalls, threadCount, batch, st).
        nat (\<lceil>real_of_int remainingCalls / real threadCount\<rceil> - int batch))") auto

declare parallel_loop.simps [simp del]

definition runBatchCalls_modes ::
    "batch_mode \<Rightarrow> nat \<Rightarrow> env \<Rightarrow> int \<Rightarrow> modes_state run_result" where
  "runBatchCalls_modes batchMode threadCount e count =
     (case correctValues (testValues e) of (correctDateString, correctNIN) \<Rightarrow>
        if correctDateString = [] \<or> correctNIN = [] then StartFailed init_modes
        else
          (let st1 = (if \<not> signal_aborted e 1 then
                        setStats
                          (record_seq (issue_m 1 correctDateString correctNIN init_modes)
                             (makeApiCallWithParams 1 correctDateString correctNIN
                                (signal_aborted e 1) (network e 1)))
                      else init_modes);
               remainingCalls = count - 1
           in Finished
                (if batchMode = sequential then sequential_loop e remainingCalls 0 st1
                 else parallel_loop e remainingCalls threadCount 0 st1)))"

section \<open>Retrying\<close>

text \<open>
  \<open>withRetry\<close> (\<open>src/unnamed/part_003\<close>). The function \<open>fn\<close> may answer differently
  each time it is invoked: \<open>fn k\<close> is what its invocation in attempt \<open>k\<close> does, \<open>Inl\<close>
  an error thrown and \<open>Inr\<close> a value returned. The model returns what \<open>withRetry\<close>
  throws or returns together with the number of invocations made. \<open>lastError\<close> is
  \<open>undefined\<close> until an invocation has failed. The \<open>sleep\<close> between attempts only
  takes time.
\<close>

record RetryConfig =
  maxRetries :: int
  retryDelay :: int
  retryableStatusCodes :: "int list"

datatype thrown = Undefined | Thrown js_error

definition isRetryable :: "RetryConfig \<Rightarrow> js_error \<Rightarrow> bool" where
  "isRetryable config errorObj =
     ((case statusCode_e errorObj of None \<Rightarrow> 0 | Some c \<Rightarrow> c) \<in> set (retryableStatusCodes config)
      \<or> (truthy_str (code errorObj)
          \<and> or_empty (code errorObj) \<in> set [''ETIMEDOUT'', ''ECONNRESET'', ''ENOTFOUND'']))"

function retry_loop ::
    "(nat \<Rightarrow> js_error + 'a) \<Rightarrow> RetryConfig \<Rightarrow> nat \<Rightarrow> nat \<Rightarrow> thrown \<Rightarrow> (thrown + 'a \<times> nat) \<times> nat" where
  "retry_loop fn config attempt retryCount lastError =
     (if int attempt \<le> maxRetries config then
        (case fn attempt of
           Inr result \<Rightarrow> (Inr (result, retryCount), Suc attempt)
         | Inl err \<Rightarrow>
             if int attempt \<ge> maxRetries config then (Inl (Thrown err), Suc attempt)
             else if \<not> isRetryable config err then (Inl (Thrown err), Suc attempt)
             else retry_loop fn config (Suc attempt) (retryCount + 1) (Thrown err))
      else (Inl lastError, attempt))"
  by pat_completeness auto
termination
  by (relation "measure (\<lambda>(fn, config, attempt, retryCount, lastError).
        nat (maxRetries config + 1 - int attempt))") auto

declare retry_loop.simps [simp del]

definition withRetry :: "(nat \<Rightarrow> js_error + 'a) \<Rightarrow> RetryConfig \<Rightarrow> (thrown + 'a \<times> nat) \<times> nat" where
  "withRetry fn config = retry_loop fn config 0 0 Undefined"

text \<open>
  The condition "not retryable" as the specification words it: the error's status code
  is not among the retryable ones and its code is none of the three network codes.
\<close>

definition spec_not_retryable :: "RetryConfig \<Rightarrow> js_error \<Rightarrow> bool" where
  "spec_not_retryable config errorObj =
     ((case statusCode_e errorObj of None \<Rightarrow> True
         | Some c \<Rightarrow> c \<notin> set (retryableStatusCodes config))
      \<and> (case code errorObj of None \<Rightarrow> True
            | Some c \<Rightarrow> c \<notin> set [''ETIMEDOUT'', ''ECONNRESET'', ''ENOTFOUND'']))"


section \<open>Example inputs\<close>

text \<open>Concrete errors and configurations used to instantiate the theorems below.\<close>

definition timeout_error :: js_error where
  "timeout_error = \<lparr>name = ''Error'', message = ''timed out'', code = Some ''ETIMEDOUT'',
     statusCode_e = None, toString_e = None\<rparr>"

definition bad_request_error :: js_error where
  "bad_request_error = \<lparr>name = ''Error'', message = ''bad request'', code = None,
     statusCode_e = Some 400, toString_e = None\<rparr>"

definition plain_error :: js_error where
  "plain_error = \<lparr>name = ''Error'', message = ''boom'', code = None,
     statusCode_e = None, toString_e = None\<rparr>"

definition default_retry :: RetryConfig where
  "default_retry = \<lparr>maxRetries = 3, retryDelay = 1000,
     retryableStatusCodes = [500, 502, 503, 504, 408]\<rparr>"

text \<open>
  An environment in which everything works: the test values are configured, nobody
  aborts, call \<open>k\<close> is answered by the API with status 200 after \<open>10 * k\<close> milliseconds,
  an animation frame runs during every call, and the graph keeps 50 points. And the
  same environment with \<open>/api/test-values\<close> answering with an error status.
\<close>

definition ok_response :: "real \<Rightarrow> fetch_outcome" where
  "ok_response t =
     Responds (GET (Some ''1444-01'') (Some ''1234567890'') (UpstreamResponse (Some 200) t))"

definition example_env :: env where
  "example_env = \<lparr>testValues = TestValues (Some ''1444-01'') (Some ''1234567890''),
     abortAt = None, network = (\<lambda>k. ok_response (10 * real k)),
     random = (\<lambda>k. (1/2, 1/64, 3/8)), frame = (\<lambda>k. True), graphMaxPoints = 50\<rparr>"




section \<open>Reading a trace\<close>

text \<open>
  The ids of the calls issued and of the outcomes recorded, in trace order; the number
  of calls issued and not yet recorded; and the checks that the theorems below make on
  every event of a trace.
\<close>

fun issued_ids :: "event list \<Rightarrow> nat list" where
  "issued_ids [] = []"
| "issued_ids (Issued k ds n # tr) = k # issued_ids tr"
| "issued_ids (Recorded r s # tr) = issued_ids tr"

fun recorded_ids :: "event list \<Rightarrow> nat list" where
  "recorded_ids [] = []"
| "recorded_ids (Issued k ds n # tr) = recorded_ids tr"
| "recorded_ids (Recorded r s # tr) = id_r r # recorded_ids tr"

fun in_flight :: "event list \<Rightarrow> int" where
  "in_flight [] = 0"
| "in_flight (Issued k ds n # tr) = in_flight tr + 1"
| "in_flight (Recorded r s # tr) = in_flight tr - 1"

fun is_recorded :: "event \<Rightarrow> bool" where
  "is_recorded (Issued k ds n) = False"
| "is_recorded (Recorded r s) = True"

text \<open>Call 1 carries the canary parameters \<open>c\<close>, every other call the random ones of its id.\<close>

fun issued_ok :: "env \<Rightarrow> string \<times> string \<Rightarrow> event \<Rightarrow> bool" where
  "issued_ok e c (Issued k ds n) = (if k = 1 then (ds, n) = c else (ds, n) = random_params e k)"
| "issued_ok e c (Recorded r s) = True"

text \<open>No call is issued at a check that reads the signal as aborted.\<close>

fun issued_unaborted :: "env \<Rightarrow> event \<Rightarrow> bool" where
  "issued_unaborted e (Issued k ds n) = (\<not> signal_aborted e k)"
| "issued_unaborted e (Recorded r s) = True"

text \<open>The statistics noted with a recorded outcome add up.\<close>

definition stats_consistent :: "stats \<Rightarrow> bool" where
  "stats_consistent s = (success s + error s = total s)"

fun event_consistent :: "event \<Rightarrow> bool" where
  "event_consistent (Issued k ds n) = True"
| "event_consistent (Recorded r s) = stats_consistent s"

text \<open>
  Sequential order: the trace is a sequence of pairs, a call issued and then the outcome
  of that same call recorded, before the next call is issued.
\<close>

fun alternating :: "event list \<Rightarrow> bool" where
  "alternating [] = True"
| "alternating (Issued k ds n # Recorded r s # tr) = (id_r r = k \<and> alternating tr)"
| "alternating tr = False"



text \<open>
  The pool bound: at every prefix of the trace the number of calls in flight is at
  most \<open>K\<close>. The batch discipline: a call is issued right after an outcome was recorded
  only when nothing is in flight. The refill discipline of the specification: an
  outcome recorded while a later call is still to be issued is followed at once by
  the issue of a call.
\<close>

definition pool_bounded :: "nat \<Rightarrow> event list \<Rightarrow> bool" where
  "pool_bounded K tr = list_all (\<lambda>n. in_flight (take n tr) \<le> int K) [0..<Suc (length tr)]"

fun batches_ok :: "int \<Rightarrow> bool \<Rightarrow> event list \<Rightarrow> bool" where
  "batches_ok cur afterRecord [] = True"
| "batches_ok cur afterRecord (Issued k ds n # tr) =
     ((afterRecord \<longrightarrow> cur = 0) \<and> batches_ok (cur + 1) False tr)"
| "batches_ok cur afterRecord (Recorded r s # tr) = batches_ok (cur - 1) True tr"

fun ends_recorded :: "bool \<Rightarrow> event list \<Rightarrow> bool" where
  "ends_recorded a [] = a"
| "ends_recorded a (ev # tr) = ends_recorded (is_recorded ev) tr"

fun refills_at_once :: "event list \<Rightarrow> bool" where
  "refills_at_once [] = True"
| "refills_at_once (Issued k ds n # tr) = refills_at_once tr"
| "refills_at_once (Recorded r s # tr) =
     ((issued_ids tr \<noteq> [] \<longrightarrow> (case tr of Issued k ds n # rest \<Rightarrow> True | _ \<Rightarrow> False))
      \<and> refills_at_once tr)"

section \<open>Invariants\<close>

text \<open>
  The states after the first call, the rest of a run of the earlier page, and the
  invariants that the proofs below carry through the loops.
\<close>

definition first_state :: "env \<Rightarrow> string \<Rightarrow> string \<Rightarrow> run_state" where
  "first_state e ds n =
     record_first (await_frame e 1 (issue 1 ds n init_state))
       (makeApiCallWithParams 1 ds n (signal_aborted e 1) (network e 1))"

definition first_modes :: "env \<Rightarrow> string \<Rightarrow> string \<Rightarrow> modes_state" where
  "first_modes e ds n =
     setStats (record_seq (issue_m 1 ds n init_modes)
       (makeApiCallWithParams 1 ds n (signal_aborted e 1) (network e 1)))"

definition rest_modes :: "batch_mode \<Rightarrow> nat \<Rightarrow> env \<Rightarrow> int \<Rightarrow> modes_state \<Rightarrow> modes_state" where
  "rest_modes batchMode threadCount e count st =
     (if batchMode = sequential then sequential_loop e (count - 1) 0 st
      else parallel_loop e (count - 1) threadCount 0 st)"

definition modes_consistent :: "modes_state \<Rightarrow> bool" where
  "modes_consistent st \<longleftrightarrow>
     successCount st + errorCount st = length (batchResults_m st)
     \<and> list_all event_consistent (trace_m st) \<and> stats_consistent (published st)"

definition in_order :: "nat \<Rightarrow> event list \<Rightarrow> ApiResult list \<Rightarrow> bool" where
  "in_order i tr rs \<longleftrightarrow>
     alternating tr \<and> recorded_ids tr = [1..<i + 2] \<and> issued_ids tr = [1..<i + 2]
     \<and> map id_r rs = [1..<i + 2]"

definition issued_events :: "env \<Rightarrow> nat list \<Rightarrow> event list" where
  "issued_events e is =
     map (\<lambda>i. Issued (i + 2) (fst (random_params e (i + 2))) (snd (random_params e (i + 2)))) is"



definition pool_inv :: "nat \<Rightarrow> modes_state \<Rightarrow> bool" where
  "pool_inv K st \<longleftrightarrow>
     pool_bounded K (trace_m st) \<and> in_flight (trace_m st) = 0 \<and> batches_ok 0 False (trace_m st)"




text \<open>
  The invariant of the graph in the example environment, and a graph whose series and
  buffer both hold 50 points.
\<close>

definition one_pending :: "nat \<Rightarrow> graph_state \<Rightarrow> bool" where
  "one_pending i g \<longleftrightarrow>
     length (graphDataBuffer g) = 1 \<and> length (responseTimeData g) = min i 50"

definition full_graph :: graph_state where
  "full_graph = \<lparr>graphSequence = 100,
     graphDataBuffer = replicate 50 \<lparr>time = ''x'', duration_pt = 1, success_pt = 1, error_pt = 0\<rparr>,
     responseTimeData = replicate 50 \<lparr>time = ''x'', duration_pt = 1, success_pt = 1, error_pt = 0\<rparr>\<rparr>"

section \<open>Properties of rounding\<close>

lemma log2_floor_bounds: "0 < n \<Longrightarrow> 2 ^ log2_floor n \<le> n \<and> n < 2 ^ Suc (log2_floor n)"
proof (induction n rule: log2_floor.induct)
  case (1 n)
  show ?case
  proof (cases "n < 2")
    case True
    with "1.prems" have "n = 1" by simp
    then show ?thesis by (simp add: log2_floor.simps)
  next
    case False
    then have pos: "0 < n div 2" by simp
    from "1.IH"[OF False pos] have ih: "2 ^ log2_floor (n div 2) \<le> n div 2"
      "n div 2 < 2 ^ Suc (log2_floor (n div 2))" by simp_all
    have eq: "log2_floor n = Suc (log2_floor (n div 2))"
      using False by (subst log2_floor.simps) simp
    from ih(1) have "2 * 2 ^ log2_floor (n div 2) \<le> n" by linarith
    moreover from ih(2) have "n < 2 * 2 ^ Suc (log2_floor (n div 2))" by linarith
    ultimately show ?thesis unfolding eq by simp
  qed
qed

lemma binary_exponent_bounds:
  assumes "0 < x"
  shows "2 powi binary_exponent x \<le> x" and "x < 2 powi (binary_exponent x + 1)"
proof -
  have "2 powi binary_exponent x \<le> x \<and> x < 2 powi (binary_exponent x + 1)"
  proof (cases "1 \<le> x")
    case True
    let ?n = "nat \<lfloor>x\<rfloor>"
    from True have n: "0 < ?n" by simp
    from log2_floor_bounds[OF n] have b: "2 ^ log2_floor ?n \<le> ?n" "?n < 2 ^ Suc (log2_floor ?n)"
      by simp_all
    have e: "binary_exponent x = int (log2_floor ?n)" using True by (simp add: binary_exponent_def)
    from b(1) have "real (2 ^ log2_floor ?n) \<le> real ?n" by (rule of_nat_mono)
    also have "real ?n \<le> x" using True by simp
    finally have lo: "2 ^ log2_floor ?n \<le> x" by simp
    from b(2) have "Suc ?n \<le> 2 ^ Suc (log2_floor ?n)" by simp
    then have "real (Suc ?n) \<le> real (2 ^ Suc (log2_floor ?n))" by (rule of_nat_mono)
    moreover have "x < real (Suc ?n)" using True by simp linarith
    ultimately have hi: "x < 2 ^ Suc (log2_floor ?n)" by simp
    have "2 powi (int (log2_floor ?n)) = (2::real) ^ log2_floor ?n"
      by (simp add: power_int_def)
    moreover have "2 powi (int (log2_floor ?n) + 1) = (2::real) ^ Suc (log2_floor ?n)"
      by (simp add: power_int_def nat_add_distrib)
    ultimately show ?thesis using lo hi unfolding e by simp
  next
    case False
    define m where "m = nat \<lceil>1 / x\<rceil>"
    define j where "j = log2_floor (m - 1)"
    from False assms have inv: "1 < 1 / x" by simp
    then have c: "2 \<le> \<lceil>1 / x\<rceil>" by linarith
    then have m2: "2 \<le> m" unfolding m_def by linarith
    have mc: "real m = of_int \<lceil>1 / x\<rceil>" using c unfolding m_def by (simp only: of_nat_nat)
    have up: "1 / x \<le> real m" unfolding mc by (rule le_of_int_ceiling)
    have low: "real m - 1 < 1 / x" unfolding mc by linarith
    from m2 have n: "0 < m - 1" by simp
    from log2_floor_bounds[OF n] have b: "2 ^ j \<le> m - 1" "m - 1 < 2 ^ Suc j"
      unfolding j_def by simp_all
    have e: "binary_exponent x = - int (Suc j)"
      using False by (simp add: binary_exponent_def m_def j_def)
    from b(2) n have "m \<le> 2 ^ Suc j" by linarith
    then have "real m \<le> real (2 ^ Suc j)" by (rule of_nat_mono)
    then have A: "real m \<le> 2 ^ Suc j" by (simp only: of_nat_power of_nat_numeral)
    from A up have "1 / x \<le> 2 ^ Suc j" by linarith
    then have "1 \<le> 2 ^ Suc j * x" using assms by (simp add: field_simps)
    then have lo: "1 / 2 ^ Suc j \<le> x" by (simp add: field_simps)
    from b(1) have "real (2 ^ j) \<le> real (m - 1)" by (rule of_nat_mono)
    then have C: "2 ^ j \<le> real (m - 1)" by (simp only: of_nat_power of_nat_numeral)
    have "real (m - 1) = real m - 1" using m2 by (simp add: of_nat_diff)
    with low have D: "real (m - 1) < 1 / x" by linarith
    from C D have "2 ^ j < 1 / x" by linarith
    then have "2 ^ j * x < 1" using assms by (simp add: field_simps)
    then have hi: "x < 1 / 2 ^ j" by (simp add: field_simps)
    have "2 powi (- int (Suc j)) = inverse ((2::real) ^ Suc j)"
      by (simp only: power_int_minus power_int_of_nat)
    then have "2 powi (- int (Suc j)) = 1 / (2::real) ^ Suc j"
      by (simp only: inverse_eq_divide)
    moreover have "- int (Suc j) + 1 = - int j" by simp
    then have "2 powi (- int (Suc j) + 1) = inverse ((2::real) ^ j)"
      by (simp only: power_int_minus power_int_of_nat)
    then have "2 powi (- int (Suc j) + 1) = 1 / (2::real) ^ j"
      by (simp only: inverse_eq_divide)
    ultimately show ?thesis using lo hi unfolding e by simp
  qed
  then show "2 powi binary_exponent x \<le> x" and "x < 2 powi (binary_exponent x + 1)" by simp_all
qed

lemma binary_exponent_eqI:
  assumes "2 powi e \<le> x" and "x < 2 powi (e + 1)"
  shows "binary_exponent x = e"
proof -
  have pos: "0 < x" using assms(1) zero_less_power_int[of "2::real" e] by linarith
  note b = binary_exponent_bounds[OF pos]
  have "(2::real) powi e < 2 powi (binary_exponent x + 1)" using assms(1) b(2) by linarith
  then have "e < binary_exponent x + 1"
    by (metis less_le not_less one_less_numeral_iff power_int_increasing semiring_norm(76) less_imp_le)
  moreover have "(2::real) powi binary_exponent x < 2 powi (e + 1)" using assms(2) b(1) by linarith
  then have "binary_exponent x < e + 1"
    by (metis less_le not_less one_less_numeral_iff power_int_increasing semiring_norm(76) less_imp_le)
  ultimately show ?thesis by simp
qed


lemma round_half_even_error: "\<bar>of_int (round_half_even m) - m\<bar> \<le> 1 / 2"
  unfolding round_half_even_def Let_def by (simp add: abs_le_iff)

lemma round_half_even_of_int: "round_half_even (of_int n) = n"
  by (simp add: round_half_even_def)

lemma round_half_even_eqI:
  assumes "\<bar>m - of_int n\<bar> < 1 / 2"
  shows "round_half_even m = n"
proof -
  from round_half_even_error[of m] assms
  have "\<bar>real_of_int (round_half_even m) - of_int n\<bar> < 1" by linarith
  then have "\<bar>real_of_int (round_half_even m - n)\<bar> < 1" by simp
  then have "\<bar>round_half_even m - n\<bar> < 1" by linarith
  then show ?thesis by simp
qed

lemma round_half_even_le: "m \<le> of_int N \<Longrightarrow> round_half_even m \<le> N"
  unfolding round_half_even_def Let_def
  by (simp add: not_less) linarith

lemma round_half_even_ge: "of_int N \<le> m \<Longrightarrow> N \<le> round_half_even m"
  unfolding round_half_even_def Let_def
  by (simp add: not_less) linarith

lemma round_half_even_below: "m < of_int N - 1 / 2 \<Longrightarrow> round_half_even m \<le> N - 1"
  using round_half_even_error[of m] by linarith

lemma quantum_pos: "0 < quantum x"
  by (simp add: quantum_def)

lemma round_double_pos:
  "0 < x \<Longrightarrow> round_double x = of_int (round_half_even (x / quantum x)) * quantum x"
  by (simp add: round_double_def)

lemma round_double_nonneg:
  assumes "0 \<le> x"
  shows "0 \<le> round_double x"
proof (cases "x = 0")
  case True
  then show ?thesis by (simp add: round_double_def)
next
  case False
  with assms have pos: "0 < x" by simp
  have "0 \<le> x / quantum x" using pos quantum_pos[of x] by simp
  then have "real_of_int 0 \<le> x / quantum x" by simp
  then have "0 \<le> round_half_even (x / quantum x)" by (rule round_half_even_ge)
  then show ?thesis unfolding round_double_pos[OF pos] using quantum_pos[of x] by simp
qed

lemma round_double_minus: "round_double (- x) = - round_double x"
  by (simp add: round_double_def)

lemma power_int_less_imp: "(2::real) powi a < 2 powi b \<Longrightarrow> a < b"
  by (metis less_le not_less one_less_numeral_iff power_int_increasing semiring_norm(76) less_imp_le)

lemma power_int_le_two: "a \<le> b \<Longrightarrow> (2::real) powi a \<le> 2 powi b"
  by (rule power_int_increasing) simp_all

lemma binary_exponent_normal:
  assumes "2 powi (- 1022) \<le> x"
  shows "- 1022 \<le> binary_exponent x"
proof -
  have pos: "0 < x" using assms zero_less_power_int[of "2::real" "- 1022"] by linarith
  from binary_exponent_bounds(2)[OF pos] assms
  have "(2::real) powi (- 1022) < 2 powi (binary_exponent x + 1)" by linarith
  then have "- 1022 < binary_exponent x + 1" by (rule power_int_less_imp)
  then show ?thesis by simp
qed

lemma round_double_error_quantum:
  assumes "0 < x"
  shows "\<bar>round_double x - x\<bar> \<le> quantum x / 2"
proof -
  let ?q = "quantum x"
  have q: "0 < ?q" by (rule quantum_pos)
  have "round_double x - x = (of_int (round_half_even (x / ?q)) - x / ?q) * ?q"
    using q by (simp add: round_double_pos[OF assms] left_diff_distrib)
  then have "\<bar>round_double x - x\<bar> = \<bar>of_int (round_half_even (x / ?q)) - x / ?q\<bar> * \<bar>?q\<bar>"
    by (simp only: abs_mult)
  also have "\<bar>?q\<bar> = ?q" using q by simp
  finally have "\<bar>round_double x - x\<bar> = \<bar>of_int (round_half_even (x / ?q)) - x / ?q\<bar> * ?q" .
  also have "\<dots> \<le> 1 / 2 * ?q"
    using q round_half_even_error[of "x / ?q"] by (intro mult_right_mono) simp_all
  finally show ?thesis by simp
qed

lemma round_double_error:
  assumes "2 powi (- 1022) \<le> x"
  shows "\<bar>round_double x - x\<bar> \<le> x / 2 ^ 53"
proof -
  have pos: "0 < x" using assms zero_less_power_int[of "2::real" "- 1022"] by linarith
  let ?e = "binary_exponent x"
  from binary_exponent_normal[OF assms] have "max ?e (- 1022) = ?e" by simp
  then have "quantum x = 2 powi (?e - 52)" by (simp add: quantum_def)
  also have "\<dots> = 2 powi ?e / 2 ^ 52" by (simp add: power_int_diff)
  finally have "quantum x / 2 = 2 powi ?e / 2 ^ 53" by simp
  also have "\<dots> \<le> x / 2 ^ 53"
    using binary_exponent_bounds(1)[OF pos] by (simp add: divide_right_mono)
  finally show ?thesis using round_double_error_quantum[OF pos] by linarith
qed

text \<open>A multiple of the quantum of \<open>x\<close> that bounds \<open>x\<close> bounds the rounded \<open>x\<close>.\<close>

lemma grid_point:
  assumes "max (binary_exponent x) (- 1022) - 52 \<le> j"
  shows "of_int N * 2 powi j / quantum x = of_int (N * 2 ^ nat (j - (max (binary_exponent x) (- 1022) - 52)))"
proof -
  let ?d = "max (binary_exponent x) (- 1022) - 52"
  have "(2::real) powi j / 2 powi ?d = 2 powi (j - ?d)" by (simp add: power_int_diff)
  also have "\<dots> = 2 ^ nat (j - ?d)" using assms by (simp add: power_int_def)
  finally have t: "(2::real) powi j / 2 powi ?d = 2 ^ nat (j - ?d)" .
  have "of_int N * 2 powi j / quantum x = of_int N * (2 powi j / 2 powi ?d)"
    by (simp add: quantum_def)
  then show ?thesis unfolding t by simp
qed

lemma round_double_le_grid:
  assumes "0 < x" and "x \<le> of_int N * 2 powi j"
    and "max (binary_exponent x) (- 1022) - 52 \<le> j"
  shows "round_double x \<le> of_int N * 2 powi j"
proof -
  let ?q = "quantum x"
  let ?M = "N * 2 ^ nat (j - (max (binary_exponent x) (- 1022) - 52))"
  have q: "0 < ?q" by (rule quantum_pos)
  have g: "of_int N * 2 powi j = of_int ?M * ?q"
    using grid_point[OF assms(3), of N] q by (simp add: field_simps)
  from assms(2) have "x / ?q \<le> of_int N * 2 powi j / ?q" using q by (simp add: divide_right_mono)
  then have "x / ?q \<le> of_int ?M" unfolding grid_point[OF assms(3)] .
  then have "round_half_even (x / ?q) \<le> ?M" by (rule round_half_even_le)
  then have "real_of_int (round_half_even (x / ?q)) \<le> of_int ?M" by (rule of_int_le_iff[THEN iffD2])
  then have "real_of_int (round_half_even (x / ?q)) * ?q \<le> of_int ?M * ?q"
    using q by (simp add: mult_right_mono)
  then show ?thesis unfolding round_double_pos[OF assms(1)] g .
qed

lemma round_double_ge_grid:
  assumes "0 < x" and "of_int N * 2 powi j \<le> x"
    and "max (binary_exponent x) (- 1022) - 52 \<le> j"
  shows "of_int N * 2 powi j \<le> round_double x"
proof -
  let ?q = "quantum x"
  let ?M = "N * 2 ^ nat (j - (max (binary_exponent x) (- 1022) - 52))"
  have q: "0 < ?q" by (rule quantum_pos)
  have g: "of_int N * 2 powi j = of_int ?M * ?q"
    using grid_point[OF assms(3), of N] q by (simp add: field_simps)
  from assms(2) have "of_int N * 2 powi j / ?q \<le> x / ?q" using q by (simp add: divide_right_mono)
  then have "of_int ?M \<le> x / ?q" unfolding grid_point[OF assms(3)] .
  then have "?M \<le> round_half_even (x / ?q)" by (rule round_half_even_ge)
  then have "real_of_int ?M \<le> of_int (round_half_even (x / ?q))" by (rule of_int_le_iff[THEN iffD2])
  then have "of_int ?M * ?q \<le> real_of_int (round_half_even (x / ?q)) * ?q"
    using q by (simp add: mult_right_mono)
  then show ?thesis unfolding round_double_pos[OF assms(1)] g .
qed

text \<open>Every integer multiple \<open>n * 2^j\<close> with \<open>|n| < 2^53\<close> and \<open>j \<ge> -1074\<close> is a double.\<close>

lemma round_double_grid_pos:
  assumes "0 < n" and "n < 2 ^ 53" and "- 1074 \<le> j"
  shows "round_double (of_int n * 2 powi j) = of_int n * 2 powi j"
proof -
  let ?x = "real_of_int n * 2 powi j"
  have pos: "0 < ?x" using assms(1) by simp
  have "real_of_int n < 2 ^ 53" using assms(2) by (metis of_int_less_numeral_power_cancel_iff)
  then have "?x < 2 ^ 53 * 2 powi j" by simp
  also have "\<dots> = 2 powi (53 + j)" by (simp add: power_int_add)
  finally have "(2::real) powi binary_exponent ?x < 2 powi (53 + j)"
    using binary_exponent_bounds(1)[OF pos] by linarith
  then have "binary_exponent ?x < 53 + j" by (rule power_int_less_imp)
  with assms(3) have d: "max (binary_exponent ?x) (- 1022) - 52 \<le> j" by simp
  from round_double_le_grid[OF pos _ d, of n] round_double_ge_grid[OF pos _ d, of n]
  show ?thesis by simp
qed

lemma round_double_grid:
  assumes "\<bar>n\<bar> < 2 ^ 53" and "- 1074 \<le> j"
  shows "round_double (of_int n * 2 powi j) = of_int n * 2 powi j"
proof -
  consider "n = 0" | "0 < n" | "n < 0" by linarith
  then show ?thesis
  proof cases
    case 1
    then show ?thesis by (simp add: round_double_def)
  next
    case 2
    with assms show ?thesis by (intro round_double_grid_pos) simp_all
  next
    case 3
    with assms have "round_double (of_int (- n) * 2 powi j) = of_int (- n) * 2 powi j"
      by (intro round_double_grid_pos) simp_all
    then show ?thesis using round_double_minus[of "of_int n * 2 powi j"] by simp
  qed
qed

lemma round_double_of_int: "\<bar>n\<bar> < 2 ^ 53 \<Longrightarrow> round_double (of_int n) = of_int n"
  using round_double_grid[of n 0] by simp

lemma round_double_numeral [simp]:
  "numeral w < (2::int) ^ 53 \<Longrightarrow> round_double (numeral w) = numeral w"
  using round_double_of_int[of "numeral w"] by simp

lemma round_double_0 [simp]: "round_double 0 = 0"
  by (simp add: round_double_def)

lemma round_double_1 [simp]: "round_double 1 = 1"
  using round_double_of_int[of 1] by simp

lemma round_double_of_nat: "n < 2 ^ 53 \<Longrightarrow> round_double (of_nat n) = of_nat n"
  using round_double_of_int[of "int n"] by simp

text \<open>Evaluating \<open>round_double\<close> at a positive number whose exponent is known.\<close>

lemma round_double_eval:
  assumes "2 powi e \<le> x" and "x < 2 powi (e + 1)" and "- 1022 \<le> e"
    and "\<bar>x / 2 powi (e - 52) - of_int n\<bar> < 1 / 2"
  shows "round_double x = of_int n * 2 powi (e - 52)"
proof -
  have pos: "0 < x" using assms(1) zero_less_power_int[of "2::real" e] by linarith
  have q: "quantum x = 2 powi (e - 52)"
    using binary_exponent_eqI[OF assms(1,2)] assms(3) by (simp add: quantum_def)
  from assms(4) have "round_half_even (x / 2 powi (e - 52)) = n" by (rule round_half_even_eqI)
  then show ?thesis by (simp add: round_double_pos[OF pos] q)
qed

lemma round_double_le_pow2:
  assumes "0 \<le> x" and "x \<le> 2 powi K" and "- 1022 \<le> K"
  shows "round_double x \<le> 2 powi K"
proof (cases "x = 0")
  case True
  then show ?thesis by simp
next
  case False
  with assms(1) have pos: "0 < x" by simp
  from binary_exponent_bounds(1)[OF pos] assms(2)
  have "(2::real) powi binary_exponent x < 2 powi (K + 1)"
    using power_int_strict_increasing[of K "K + 1" "2::real"] by simp
  then have "binary_exponent x < K + 1" by (rule power_int_less_imp)
  with assms(3) have d: "max (binary_exponent x) (- 1022) - 52 \<le> K" by simp
  from round_double_le_grid[OF pos _ d, of 1] assms(2) show ?thesis by simp
qed

text \<open>
  Rounding cannot reach a double \<open>N * 2^(K - 52)\<close> of the binade \<open>[2^K, 2^(K+1)]\<close> from
  more than half a quantum below it.
\<close>

lemma round_double_below:
  assumes "0 \<le> x" and "- 1022 \<le> K" and "2 ^ 52 < N" and "N \<le> 2 ^ 53"
    and "x < of_int N * 2 powi (K - 52) - 2 powi (K - 53)"
  shows "round_double x < of_int N * 2 powi (K - 52)"
proof -
  let ?G = "real_of_int N * 2 powi (K - 52)"
  have k52: "(2::real) powi K = 2 ^ 52 * 2 powi (K - 52)" by (simp add: power_int_diff)
  have k53: "(2::real) powi (K + 1) = 2 ^ 53 * 2 powi (K - 52)"
    by (simp add: power_int_diff power_int_add)
  have h: "(2::real) powi (K - 53) = 2 powi (K - 52) / 2" by (simp add: power_int_diff)
  have "real_of_int (2 ^ 52) < real_of_int N" using assms(3) by (simp only: of_int_less_iff)
  then have N1: "2 ^ 52 < real_of_int N" by simp
  have "real_of_int N \<le> real_of_int (2 ^ 53)" using assms(4) by (simp only: of_int_le_iff)
  then have N2: "real_of_int N \<le> 2 ^ 53" by simp
  have q: "0 < (2::real) powi (K - 52)" by simp
  have lo: "2 powi K < ?G" unfolding k52 using N1 q by (simp only: mult_less_cancel_right_pos)
  have hi: "?G \<le> 2 powi (K + 1)" unfolding k53 using N2 q by (simp add: mult_right_mono)
  show ?thesis
  proof (cases "x = 0")
    case True
    have "0 < ?G" using lo zero_less_power_int[of "2::real" K] by linarith
    with True show ?thesis by simp
  next
    case False
    with assms(1) have pos: "0 < x" by simp
    note b = binary_exponent_bounds[OF pos]
    show ?thesis
    proof (cases "binary_exponent x < K")
      case True
      then have "(2::real) powi (binary_exponent x + 1) \<le> 2 powi K"
        by (intro power_int_le_two) simp
      with b(2) have "x \<le> 2 powi K" by linarith
      from round_double_le_pow2[OF assms(1) this assms(2)] lo show ?thesis by linarith
    next
      case False
      from assms(5) hi q have "x < 2 powi (K + 1)" unfolding h by linarith
      with b(1) have "(2::real) powi binary_exponent x < 2 powi (K + 1)" by linarith
      then have "binary_exponent x < K + 1" by (rule power_int_less_imp)
      with False have e: "binary_exponent x = K" by simp
      have qx: "quantum x = 2 powi (K - 52)" using e assms(2) by (simp add: quantum_def)
      from assms(5) have "x < (real_of_int N - 1 / 2) * 2 powi (K - 52)"
        unfolding h by (simp add: left_diff_distrib)
      then have "x / 2 powi (K - 52) < real_of_int N - 1 / 2"
        using q by (simp add: pos_divide_less_eq)
      then have "round_half_even (x / 2 powi (K - 52)) \<le> N - 1" by (rule round_half_even_below)
      then have "real_of_int (round_half_even (x / 2 powi (K - 52))) \<le> real_of_int (N - 1)"
        by (simp only: of_int_le_iff)
      then have "real_of_int (round_half_even (x / 2 powi (K - 52))) < real_of_int N" by simp
      then show ?thesis unfolding round_double_pos[OF pos] qx
        using q by (simp only: mult_less_cancel_right_pos)
    qed
  qed
qed

lemma is_double_below_1:
  assumes "is_double r" and "0 \<le> r" and "r < 1"
  shows "r \<le> 1 - 1 / 2 ^ 53"
proof (cases "r < 1 / 2")
  case True
  have "(1::real) / 2 \<le> 1 - 1 / 2 ^ 53" by simp
  with True show ?thesis by linarith
next
  case False
  then have lo: "2 powi (- 1) \<le> r" by simp
  have hi: "r < 2 powi (- 1 + 1)" using assms(3) by simp
  have pos: "0 < r" using False by simp
  have q: "quantum r = 2 powi (- 53)"
    using binary_exponent_eqI[OF lo hi] by (simp add: quantum_def)
  have q': "(2::real) powi (- 53) = 1 / 2 ^ 53" by (simp add: power_int_minus field_simps)
  let ?n = "round_half_even (r / quantum r)"
  from assms(1) have r: "r = of_int ?n / 2 ^ 53"
    unfolding is_double_def round_double_pos[OF pos] unfolding q q' by simp
  with assms(3) have "real_of_int ?n < 2 ^ 53" by simp
  then have "real_of_int ?n < real_of_int (2 ^ 53)" by simp
  then have "?n < 2 ^ 53" by (simp only: of_int_less_iff)
  then have "?n \<le> 2 ^ 53 - 1" by simp
  then have "real_of_int ?n \<le> real_of_int (2 ^ 53 - 1)" by (simp only: of_int_le_iff)
  then have "real_of_int ?n \<le> 2 ^ 53 - 1" by simp
  then have "real_of_int ?n / 2 ^ 53 \<le> (2 ^ 53 - 1) / 2 ^ 53" by (simp add: divide_right_mono)
  also have "\<dots> = (1::real) - 1 / 2 ^ 53" by (simp add: field_simps)
  finally show ?thesis using r by simp
qed

text \<open>
  The product of a double below 1 with a constant \<open>C\<close> that is a double and no power of
  two stays below \<open>C\<close>: the draw is at most \<open>1 - 2^-53\<close>, so the exact product is more
  than half a quantum below \<open>C\<close>.
\<close>

lemma scaled_draw_below:
  assumes "is_double r" and "0 \<le> r" and "r < 1"
    and "- 1022 \<le> K" and "2 ^ 52 < N" and "N \<le> 2 ^ 53"
    and C: "C = of_int N * 2 powi (K - 52)"
  shows "0 \<le> fmul r C \<and> fmul r C < C"
proof -
  have "real_of_int (2 ^ 52) < real_of_int N" using assms(5) by (simp only: of_int_less_iff)
  then have N1: "2 ^ 52 < real_of_int N" by simp
  have q: "0 < (2::real) powi (K - 52)" by simp
  have k52: "(2::real) powi K = 2 ^ 52 * 2 powi (K - 52)" by (simp add: power_int_diff)
  have h: "(2::real) powi (K - 53) = 2 powi K / 2 ^ 53" by (simp add: power_int_diff)
  have lo: "2 powi K < C" unfolding k52 C using N1 q by (simp only: mult_less_cancel_right_pos)
  have Cpos: "0 < C" using lo zero_less_power_int[of "2::real" K] by linarith
  from is_double_below_1[OF assms(1,2,3)] have "r * C \<le> (1 - 1 / 2 ^ 53) * C"
    using Cpos by (simp only: mult_le_cancel_right_pos)
  also have "\<dots> = C - C / 2 ^ 53" by (simp add: left_diff_distrib)
  also have "\<dots> < C - 2 powi (K - 53)" unfolding h using lo by (simp add: divide_strict_right_mono)
  finally have b: "r * C < of_int N * 2 powi (K - 52) - 2 powi (K - 53)" unfolding C .
  have nn: "0 \<le> r * C" using assms(2) Cpos by simp
  from round_double_below[OF nn assms(4,5,6) b] round_double_nonneg[OF nn]
  show ?thesis unfolding fmul_def C by simp
qed

lemma scaled_draw_floor:
  assumes "is_double r" and "0 \<le> r" and "r < 1"
  shows "0 \<le> \<lfloor>fmul r 100\<rfloor> \<and> \<lfloor>fmul r 100\<rfloor> < 100"
    and "0 \<le> \<lfloor>fmul r 12\<rfloor> \<and> \<lfloor>fmul r 12\<rfloor> < 12"
    and "0 \<le> \<lfloor>fmul r 900000000\<rfloor> \<and> \<lfloor>fmul r 900000000\<rfloor> < 900000000"
proof -
  have "0 \<le> fmul r 100 \<and> fmul r 100 < 100"
    by (rule scaled_draw_below[OF assms, of 6 7036874417766400]) simp_all
  then show "0 \<le> \<lfloor>fmul r 100\<rfloor> \<and> \<lfloor>fmul r 100\<rfloor> < 100" by (simp add: floor_less_iff)
  have "0 \<le> fmul r 12 \<and> fmul r 12 < 12"
    by (rule scaled_draw_below[OF assms, of 3 6755399441055744]) simp_all
  then show "0 \<le> \<lfloor>fmul r 12\<rfloor> \<and> \<lfloor>fmul r 12\<rfloor> < 12" by (simp add: floor_less_iff)
  have "0 \<le> fmul r 900000000 \<and> fmul r 900000000 < 900000000"
    by (rule scaled_draw_below[OF assms, of 29 7549747200000000]) simp_all
  then show "0 \<le> \<lfloor>fmul r 900000000\<rfloor> \<and> \<lfloor>fmul r 900000000\<rfloor> < 900000000"
    by (simp add: floor_less_iff)
qed

text \<open>Evaluating the operations at numerals.\<close>

lemma log2_floor_numeral:
  "log2_floor (numeral w)
     = (if numeral w < (2::nat) then 0 else Suc (log2_floor (numeral w div 2)))"
  by (rule log2_floor.simps)

lemma log2_floor_small: "log2_floor 0 = 0" "log2_floor (Suc 0) = 0" "log2_floor 1 = 0"
  by (simp_all add: log2_floor.simps)

lemmas round_double_code = round_double_def quantum_def binary_exponent_def log2_floor_numeral
  log2_floor_small round_half_even_def fmul_def fadd_def fdiv_def

section \<open>Properties of the random parameters\<close>

subsection \<open>Printing and reading decimal numbers\<close>

lemma digit_val_digit_char: "d < 10 \<Longrightarrow> digit_val (digit_char d) = d"
proof -
  assume "d < 10"
  then have "d \<in> {0,1,2,3,4,5,6,7,8,9}" by auto
  then show ?thesis by (auto simp: digit_val_def digit_char_def)
qed

lemma is_digit_digit_char: "is_digit (digit_char d)"
  unfolding is_digit_def digit_char_def by (rule nth_mem) simp

lemma nat_of_string_snoc: "nat_of_string (s @ [c]) = 10 * nat_of_string s + digit_val c"
  by (simp add: nat_of_string_def)

lemma nat_of_string_of_nat: "nat_of_string (string_of_nat n) = n"
proof (induction n rule: string_of_nat.induct)
  case (1 n)
  show ?case
  proof (cases "n < 10")
    case True
    then show ?thesis
      by (simp add: string_of_nat.simps[of n] nat_of_string_def digit_val_digit_char)
  next
    case False
    with 1 show ?thesis
      by (simp add: string_of_nat.simps[of n] nat_of_string_snoc digit_val_digit_char)
  qed
qed

lemma digits_string_of_nat: "list_all is_digit (string_of_nat n)"
proof (induction n rule: string_of_nat.induct)
  case (1 n)
  then show ?case
    by (cases "n < 10") (simp_all add: string_of_nat.simps[of n] is_digit_digit_char)
qed

lemma length_string_of_nat_le: "n < 10 ^ Suc k \<Longrightarrow> length (string_of_nat n) \<le> Suc k"
proof (induction k arbitrary: n)
  case 0
  then show ?case by (simp add: string_of_nat.simps[of n])
next
  case (Suc k)
  show ?case
  proof (cases "n < 10")
    case True
    then show ?thesis by (simp add: string_of_nat.simps[of n])
  next
    case False
    from Suc.prems have "n div 10 < 10 ^ Suc k" by (simp add: less_mult_imp_div_less mult.commute)
    from Suc.IH[OF this] False show ?thesis by (simp add: string_of_nat.simps[of n])
  qed
qed

lemma length_string_of_nat_ge: "10 ^ k \<le> n \<Longrightarrow> Suc k \<le> length (string_of_nat n)"
proof (induction k arbitrary: n)
  case 0
  then show ?case by (cases "n < 10") (simp_all add: string_of_nat.simps[of n])
next
  case (Suc k)
  then have ge: "10 \<le> n" 
    by (metis (no_types) le_trans one_le_numeral one_le_power power_Suc mult.right_neutral mult_le_mono2 )
  from Suc.prems have "10 ^ k \<le> n div 10"
    by (simp add: less_eq_div_iff_mult_less_eq mult.commute)
  from Suc.IH[OF this] ge show ?case by (simp add: string_of_nat.simps[of n])
qed


lemma length_string_of_nat:
  "10 ^ k \<le> n \<Longrightarrow> n < 10 ^ Suc k \<Longrightarrow> length (string_of_nat n) = Suc k"
  using length_string_of_nat_le[of n k] length_string_of_nat_ge[of k n] by simp

lemma nat_of_string_zeros: "nat_of_string (replicate k CHR ''0'' @ s) = nat_of_string s"
proof -
  have "foldl (\<lambda>acc c. 10 * acc + digit_val c) 0 (replicate k CHR ''0'') = 0"
    by (induction k) (simp_all add: digit_val_def)
  then show ?thesis by (simp add: nat_of_string_def)
qed

lemma String_num_nonneg: "0 \<le> i \<Longrightarrow> String_num i = string_of_nat (nat i)"
  by (simp add: String_num_def)

lemma month_string:
  assumes "1 \<le> m" "m \<le> 12"
  shows "length (padStart 2 CHR ''0'' (string_of_nat m)) = 2
       \<and> list_all is_digit (padStart 2 CHR ''0'' (string_of_nat m))
       \<and> nat_of_string (padStart 2 CHR ''0'' (string_of_nat m)) = m"
proof -
  have len: "length (string_of_nat m) = (if m < 10 then 1 else 2)"
  proof (cases "m < 10")
    case True
    then show ?thesis by (simp add: string_of_nat.simps[of m])
  next
    case False
    with assms have "10 ^ 1 \<le> m" "m < 10 ^ Suc 1" by simp_all
    from length_string_of_nat[OF this] False show ?thesis by simp
  qed
  have zero: "is_digit CHR ''0''" by (simp add: is_digit_def)
  have "nat_of_string (padStart 2 CHR ''0'' (string_of_nat m)) = m"
    unfolding padStart_def by (simp only: nat_of_string_zeros nat_of_string_of_nat)
  moreover have "length (padStart 2 CHR ''0'' (string_of_nat m)) = 2"
    unfolding padStart_def by (simp add: len)
  moreover have "list_all is_digit (padStart 2 CHR ''0'' (string_of_nat m))"
    unfolding padStart_def by (simp add: len digits_string_of_nat zero)
  ultimately show ?thesis by simp
qed

subsection \<open>Ranges of the generated parameters\<close>

text \<open>
  C9. Whatever the three draws \<open>r1\<close>, \<open>r2\<close>, \<open>r3\<close> of \<open>Math.random()\<close> are, doubles in
  \<open>[0, 1)\<close>, with the products rounded as JavaScript rounds them, the generated
  \<open>dateString\<close> has seven characters, four digits that read as a year from 1400 to
  1499, a hyphen, and two digits that read as a month from 1 to 12; the generated \<open>nin\<close>
  has nine digits and reads as a number from 100000000 to 999999999.
\<close>

theorem random_params_in_range:
  assumes "is_double r1" "0 \<le> r1" "r1 < 1" "is_double r2" "0 \<le> r2" "r2 < 1"
    "is_double r3" "0 \<le> r3" "r3 < 1"
  shows "(let s = generateRandomDateString r1 r2; n = generateRandomNIN r3 in
     length s = 7 \<and> s ! 4 = CHR ''-''
     \<and> list_all is_digit (take 4 s) \<and> list_all is_digit (drop 5 s)
     \<and> 1400 \<le> nat_of_string (take 4 s) \<and> nat_of_string (take 4 s) \<le> 1499
     \<and> 1 \<le> nat_of_string (drop 5 s) \<and> nat_of_string (drop 5 s) \<le> 12
     \<and> length n = 9 \<and> list_all is_digit n
     \<and> 100000000 \<le> nat_of_string n \<and> nat_of_string n \<le> 999999999)"
proof -
  define y where "y = nat (\<lfloor>fmul r1 100\<rfloor> + 1400)"
  define m where "m = nat (\<lfloor>fmul r2 12\<rfloor> + 1)"
  define v where "v = nat (\<lfloor>fmul r3 900000000\<rfloor> + 100000000)"
  from scaled_draw_floor(1)[OF assms(1,2,3)]
  have fy: "0 \<le> \<lfloor>fmul r1 100\<rfloor>" "\<lfloor>fmul r1 100\<rfloor> < 100" by simp_all
  from scaled_draw_floor(2)[OF assms(4,5,6)]
  have fm: "0 \<le> \<lfloor>fmul r2 12\<rfloor>" "\<lfloor>fmul r2 12\<rfloor> < 12" by simp_all
  from scaled_draw_floor(3)[OF assms(7,8,9)]
  have fv: "0 \<le> \<lfloor>fmul r3 900000000\<rfloor>" "\<lfloor>fmul r3 900000000\<rfloor> < 900000000" by simp_all
  from fy have y: "1400 \<le> y" "y \<le> 1499" unfolding y_def by linarith+
  from fm have m: "1 \<le> m" "m \<le> 12" unfolding m_def by linarith+
  from fv have v: "100000000 \<le> v" "v \<le> 999999999" unfolding v_def by linarith+
  have ys: "String_num (\<lfloor>fmul r1 100\<rfloor> + 1400) = string_of_nat y"
    unfolding y_def using fy by (intro String_num_nonneg) linarith
  have ms: "String_num (\<lfloor>fmul r2 12\<rfloor> + 1) = string_of_nat m"
    unfolding m_def using fm by (intro String_num_nonneg) linarith
  have vs: "generateRandomNIN r3 = string_of_nat v"
    unfolding v_def generateRandomNIN_def using fv by (intro String_num_nonneg) linarith
  from y have "10 ^ 3 \<le> y" "y < 10 ^ Suc 3" by simp_all
  from length_string_of_nat[OF this] have ylen: "length (string_of_nat y) = 4" by simp
  from v have "10 ^ 8 \<le> v" "v < 10 ^ Suc 8" by simp_all
  from length_string_of_nat[OF this] have vlen: "length (string_of_nat v) = 9" by simp
  define mm where "mm = padStart 2 CHR ''0'' (string_of_nat m)"
  from month_string[OF m] have mm: "length mm = 2" "list_all is_digit mm" "nat_of_string mm = m"
    by (simp_all add: mm_def)
  have s: "generateRandomDateString r1 r2 = string_of_nat y @ CHR ''-'' # mm"
    by (simp add: generateRandomDateString_def ys ms mm_def)
  have "length (generateRandomDateString r1 r2) = 7" by (simp add: s ylen mm)
  moreover have "generateRandomDateString r1 r2 ! 4 = CHR ''-''"
    by (simp add: s nth_append ylen)
  moreover have "take 4 (generateRandomDateString r1 r2) = string_of_nat y"
    by (simp add: s ylen)
  moreover have "drop 5 (generateRandomDateString r1 r2) = mm"
    by (simp add: s ylen)
  ultimately show ?thesis
    using y m v by (simp add: Let_def vs vlen mm digits_string_of_nat nat_of_string_of_nat)
qed

text \<open>
  The draws of the instance are the doubles that JavaScript prints as \<open>0.24\<close>, \<open>0.99\<close> and
  \<open>0.3333333333333333\<close>. The exact products with 100 and 900000000 lie just below 24 and
  300000000; the rounded ones are 24 and 300000000.
\<close>

theorem random_params_in_range_witness:
  "is_double (1080863910568919 / 2 ^ 52) \<and> (0::real) \<le> 1080863910568919 / 2 ^ 52
   \<and> (1080863910568919 / 2 ^ 52 :: real) < 1
   \<and> is_double (4458563631096791 / 2 ^ 52) \<and> (0::real) \<le> 4458563631096791 / 2 ^ 52
   \<and> (4458563631096791 / 2 ^ 52 :: real) < 1
   \<and> is_double (6004799503160661 / 2 ^ 54) \<and> (0::real) \<le> 6004799503160661 / 2 ^ 54
   \<and> (6004799503160661 / 2 ^ 54 :: real) < 1
   \<and> \<lfloor>1080863910568919 / 2 ^ 52 * (100::real)\<rfloor> = 23
   \<and> generateRandomDateString (1080863910568919 / 2 ^ 52) (4458563631096791 / 2 ^ 52) = ''1424-12''
   \<and> nat_of_string (take 4
        (generateRandomDateString (1080863910568919 / 2 ^ 52) (4458563631096791 / 2 ^ 52))) \<le> 1499
   \<and> nat_of_string (drop 5
        (generateRandomDateString (1080863910568919 / 2 ^ 52) (4458563631096791 / 2 ^ 52))) \<le> 12
   \<and> generateRandomNIN (6004799503160661 / 2 ^ 54) = ''400000000''
   \<and> length (generateRandomNIN (6004799503160661 / 2 ^ 54)) = 9"
proof -
  have d1: "is_double (1080863910568919 / 2 ^ 52)"
    unfolding is_double_def using round_double_grid[of 1080863910568919 "- 52"] by simp
  have d2: "is_double (4458563631096791 / 2 ^ 52)"
    unfolding is_double_def using round_double_grid[of 4458563631096791 "- 52"] by simp
  have d3: "is_double (6004799503160661 / 2 ^ 54)"
    unfolding is_double_def using round_double_grid[of 6004799503160661 "- 54"] by simp
  have b: "(0::real) \<le> 1080863910568919 / 2 ^ 52" "(1080863910568919 / 2 ^ 52 :: real) < 1"
    "(0::real) \<le> 4458563631096791 / 2 ^ 52" "(4458563631096791 / 2 ^ 52 :: real) < 1"
    "(0::real) \<le> 6004799503160661 / 2 ^ 54" "(6004799503160661 / 2 ^ 54 :: real) < 1"
    by simp_all
  have "fmul (1080863910568919 / 2 ^ 52) 100 = 24"
    unfolding fmul_def
    using round_double_eval[of 4 "1080863910568919 / 2 ^ 52 * 100" 6755399441055744] by simp
  then have y: "\<lfloor>fmul (1080863910568919 / 2 ^ 52) 100\<rfloor> = 24"
    by (simp only:) simp
  have "fmul (4458563631096791 / 2 ^ 52) 12 = 6687845446645186 / 2 ^ 49"
    by (simp add: round_double_code)
  then have m: "\<lfloor>fmul (4458563631096791 / 2 ^ 52) 12\<rfloor> = 11"
    by (simp only:) simp
  have "fmul (6004799503160661 / 2 ^ 54) 900000000 = 300000000"
    unfolding fmul_def
    using round_double_eval[of 28 "6004799503160661 / 2 ^ 54 * 900000000" 5033164800000000]
    by simp
  then have v: "\<lfloor>fmul (6004799503160661 / 2 ^ 54) 900000000\<rfloor> = 300000000"
    by (simp only:) simp
  have d: "generateRandomDateString (1080863910568919 / 2 ^ 52) (4458563631096791 / 2 ^ 52)
      = ''1424-12''"
    unfolding generateRandomDateString_def Let_def y m
    by (simp add: String_num_def padStart_def string_of_nat.simps digit_char_def)
  have n: "generateRandomNIN (6004799503160661 / 2 ^ 54) = ''400000000''"
    unfolding generateRandomNIN_def v
    by (simp add: String_num_def string_of_nat.simps digit_char_def)
  have f: "\<lfloor>1080863910568919 / 2 ^ 52 * (100::real)\<rfloor> = 23" by simp
  from random_params_in_range[OF d1 b(1,2) d2 b(3,4) d3 b(5,6)]
  have "nat_of_string (take 4
        (generateRandomDateString (1080863910568919 / 2 ^ 52) (4458563631096791 / 2 ^ 52))) \<le> 1499
      \<and> nat_of_string (drop 5
        (generateRandomDateString (1080863910568919 / 2 ^ 52) (4458563631096791 / 2 ^ 52))) \<le> 12
      \<and> length (generateRandomNIN (6004799503160661 / 2 ^ 54)) = 9"
    by (simp add: Let_def)
  with d1 d2 d3 b d n f show ?thesis by simp
qed

section \<open>Properties of retrying\<close>

lemma retry_loop_calls_le:
  "int attempt \<le> max 0 (maxRetries config + 1) \<Longrightarrow>
   int (snd (retry_loop fn config attempt retryCount lastError)) \<le> max 0 (maxRetries config + 1)"
proof (induction fn config attempt retryCount lastError rule: retry_loop.induct)
  case (1 fn config attempt retryCount lastError)
  show ?case
  proof (cases "int attempt \<le> maxRetries config")
    case False
    with "1.prems" show ?thesis by (simp add: retry_loop.simps[of fn config attempt])
  next
    case True
    show ?thesis
    proof (cases "fn attempt")
      case (Inr v)
      with True show ?thesis by (simp add: retry_loop.simps[of fn config attempt])
    next
      case (Inl err)
      show ?thesis
      proof (cases "int attempt \<ge> maxRetries config \<or> \<not> isRetryable config err")
        case True
        with \<open>int attempt \<le> maxRetries config\<close> Inl show ?thesis
          by (auto simp add: retry_loop.simps[of fn config attempt])
      next
        case False
        with \<open>int attempt \<le> maxRetries config\<close> Inl
        have eq: "retry_loop fn config attempt retryCount lastError
            = retry_loop fn config (Suc attempt) (retryCount + 1) (Thrown err)"
          by (simp add: retry_loop.simps[of fn config attempt])
        from False \<open>int attempt \<le> maxRetries config\<close>
        have "int (Suc attempt) \<le> max 0 (maxRetries config + 1)" by simp
        from "1.IH"[OF \<open>int attempt \<le> maxRetries config\<close> Inl _ _ this] False
        show ?thesis by (simp add: eq)
      qed
    qed
  qed
qed

lemma retry_loop_skip:
  assumes "\<forall>j. a \<le> j \<and> j < a + d \<longrightarrow> (\<exists>err. fn j = Inl err \<and> isRetryable config err)"
    and "int (a + d) \<le> maxRetries config"
  shows "\<exists>le'. retry_loop fn config a rc le = retry_loop fn config (a + d) (rc + d) le'"
  using assms
proof (induction d arbitrary: a rc le)
  case 0
  then show ?case by auto
next
  case (Suc d)
  from Suc.prems(1) obtain err where err: "fn a = Inl err" "isRetryable config err" by auto
  from Suc.prems(2) have lt: "int a < maxRetries config" by simp
  from err lt have step: "retry_loop fn config a rc le
      = retry_loop fn config (Suc a) (rc + 1) (Thrown err)"
    by (simp add: retry_loop.simps[of fn config a])
  have "\<forall>j. Suc a \<le> j \<and> j < Suc a + d \<longrightarrow> (\<exists>err. fn j = Inl err \<and> isRetryable config err)"
    using Suc.prems(1) by auto
  moreover have "int (Suc a + d) \<le> maxRetries config" using Suc.prems(2) by simp
  ultimately obtain le' where
    "retry_loop fn config (Suc a) (rc + 1) (Thrown err)
       = retry_loop fn config (Suc a + d) (rc + 1 + d) le'"
    using Suc.IH[of "Suc a" "rc + 1" "Thrown err"] by blast
  with step show ?case by (auto simp: add.commute add.left_commute)
qed

text \<open>
  C10, as the code has it. \<open>withRetry\<close> invokes \<open>fn\<close> at most \<open>maxRetries + 1\<close> times, and
  not at all when \<open>maxRetries\<close> is negative. If the first \<open>k\<close> invocations fail with
  retryable errors and attempt \<open>k\<close> is within \<open>maxRetries\<close>, then a value returned by
  invocation \<open>k\<close> is returned with \<open>retryCount = k\<close> after \<open>k + 1\<close> invocations, and an
  error thrown by invocation \<open>k\<close> for which \<open>isRetryable\<close> is false is rethrown after
  \<open>k + 1\<close> invocations. \<open>isRetryable\<close> reads a missing status code as \<open>0\<close>.
\<close>

theorem withRetry_contract:
  "int (snd (withRetry fn config)) \<le> max 0 (maxRetries config + 1)
   \<and> ((\<forall>j<k. \<exists>err. fn j = Inl err \<and> isRetryable config err) \<and> int k \<le> maxRetries config \<longrightarrow>
        (\<forall>v. fn k = Inr v \<longrightarrow> withRetry fn config = (Inr (v, k), Suc k))
      \<and> (\<forall>err. fn k = Inl err \<and> \<not> isRetryable config err \<longrightarrow>
             withRetry fn config = (Inl (Thrown err), Suc k)))"
proof (intro conjI impI allI)
  show "int (snd (withRetry fn config)) \<le> max 0 (maxRetries config + 1)"
    unfolding withRetry_def by (rule retry_loop_calls_le) simp
next
  fix v
  assume h: "(\<forall>j<k. \<exists>err. fn j = Inl err \<and> isRetryable config err) \<and> int k \<le> maxRetries config"
    and v: "fn k = Inr v"
  from h retry_loop_skip[of 0 k fn config 0 Undefined]
  obtain le' where "withRetry fn config = retry_loop fn config k k le'"
    by (auto simp: withRetry_def)
  with h v show "withRetry fn config = (Inr (v, k), Suc k)"
    by (simp add: retry_loop.simps[of fn config k])
next
  fix err
  assume h: "(\<forall>j<k. \<exists>err. fn j = Inl err \<and> isRetryable config err) \<and> int k \<le> maxRetries config"
    and e: "fn k = Inl err \<and> \<not> isRetryable config err"
  from h retry_loop_skip[of 0 k fn config 0 Undefined]
  obtain le' where "withRetry fn config = retry_loop fn config k k le'"
    by (auto simp: withRetry_def)
  with h e show "withRetry fn config = (Inl (Thrown err), Suc k)"
    by (simp add: retry_loop.simps[of fn config k])
qed

theorem withRetry_contract_witness:
  "int 1 \<le> maxRetries default_retry
   \<and> isRetryable default_retry timeout_error \<and> \<not> isRetryable default_retry bad_request_error
   \<and> withRetry (\<lambda>k. if k = 0 then Inl timeout_error else (Inl bad_request_error :: js_error + bool)) default_retry
       = (Inl (Thrown bad_request_error), 2)"
proof -
  let ?fn = "\<lambda>k::nat. if k = 0 then Inl timeout_error else (Inl bad_request_error :: js_error + bool)"
  have r: "isRetryable default_retry timeout_error" "\<not> isRetryable default_retry bad_request_error"
    by (simp_all add: isRetryable_def default_retry_def timeout_error_def bad_request_error_def
        truthy_str_def or_empty_def)
  have pre: "(\<forall>j<1. \<exists>err. ?fn j = Inl err \<and> isRetryable default_retry err)
      \<and> int 1 \<le> maxRetries default_retry"
    using r by (simp add: default_retry_def)
  from withRetry_contract[of ?fn default_retry 1] pre
  have "withRetry ?fn default_retry = (Inl (Thrown bad_request_error), 2)"
    using r by simp
  with r show ?thesis by (simp add: default_retry_def)
qed

text \<open>
  C10 as stated fails in two places. An error without a status code is not retryable in
  the specification's words, yet with \<open>0\<close> among the retryable status codes the code
  retries it: \<open>fn\<close> is invoked a second time and its value returned. And with
  \<open>maxRetries = -2\<close> the function is invoked zero times, which is more than
  \<open>maxRetries + 1 = -1\<close>.
\<close>

theorem withRetry_counterexample:
  "spec_not_retryable \<lparr>maxRetries = 1, retryDelay = 1000, retryableStatusCodes = [0]\<rparr> plain_error
   \<and> withRetry (\<lambda>k. if k = 0 then Inl plain_error else Inr True)
        \<lparr>maxRetries = 1, retryDelay = 1000, retryableStatusCodes = [0]\<rparr> = (Inr (True, 1), 2)
   \<and> snd (withRetry (\<lambda>k. (Inr True :: js_error + bool))
        \<lparr>maxRetries = - 2, retryDelay = 1000, retryableStatusCodes = [500]\<rparr>) = 0
   \<and> \<not> (int 0 \<le> - 2 + 1)"
  by (simp add: spec_not_retryable_def plain_error_def withRetry_def retry_loop.simps
      isRetryable_def)

section \<open>Properties of the batch runs\<close>

subsection \<open>Traces\<close>

lemma issued_ids_append: "issued_ids (tr @ tr') = issued_ids tr @ issued_ids tr'"
  by (induction tr rule: issued_ids.induct) simp_all

lemma recorded_ids_append: "recorded_ids (tr @ tr') = recorded_ids tr @ recorded_ids tr'"
  by (induction tr rule: recorded_ids.induct) simp_all


lemma in_flight_append: "in_flight (tr @ tr') = in_flight tr + in_flight tr'"
  by (induction tr rule: in_flight.induct) simp_all

lemma alternating_append: "alternating tr \<Longrightarrow> alternating tr' \<Longrightarrow> alternating (tr @ tr')"
  by (induction tr rule: alternating.induct) simp_all


subsection \<open>The steps of the current page's run\<close>

lemma issue_fields [simp]:
  "trace (issue k ds n st) = trace st @ [Issued k ds n]"
  "batchResults (issue k ds n st) = batchResults st"
  "statsRef (issue k ds n st) = statsRef st"
  "graph (issue k ds n st) = graph st"
  by (simp_all add: issue_def)

lemma await_frame_fields [simp]:
  "trace (await_frame e k st) = trace st"
  "batchResults (await_frame e k st) = batchResults st"
  "statsRef (await_frame e k st) = statsRef st"
  by (simp_all add: await_frame_def)

lemma record_next_fields:
  "trace (record_next st r) = trace st @ [Recorded r (statsRef (record_next st r))]"
  "batchResults (record_next st r) = batchResults st @ [r]"
  "graph (record_next st r) = addGraphDataPointToRef (graph st) r"
  by (simp_all add: record_next_def Let_def)

lemma record_first_fields:
  "trace (record_first st r) = trace st @ [Recorded r (statsRef (record_first st r))]"
  "batchResults (record_first st r) = batchResults st @ [r]"
  "graph (record_first st r) = addGraphDataPointToRef (graph st) r"
  by (simp_all add: record_first_def Let_def)

lemma count_status_fields:
  "total (count_status s r) = total s + 1"
  "success (count_status s r) = (if status r = success_status then success s + 1 else success s)"
  "error (count_status s r) = (if status r = success_status then error s else error s + 1)"
  "averageTime (count_status s r) = averageTime s"
  by (simp_all add: count_status_def Let_def)

lemma statsRef_record_next:
  "total (statsRef (record_next st r)) = total (statsRef st) + 1"
  "success (statsRef (record_next st r))
     = (if status r = success_status then success (statsRef st) + 1 else success (statsRef st))"
  "error (statsRef (record_next st r))
     = (if status r = success_status then error (statsRef st) else error (statsRef st) + 1)"
  "averageTime (statsRef (record_next st r))
     = (averageTime (statsRef st) * real (total (statsRef st)) + duration r)
         / (real (total (statsRef st)) + 1)"
  by (simp_all add: record_next_def Let_def count_status_fields)

lemma statsRef_record_first:
  "total (statsRef (record_first st r)) = total (statsRef st) + 1"
  "success (statsRef (record_first st r))
     = (if status r = success_status then success (statsRef st) + 1 else success (statsRef st))"
  "error (statsRef (record_first st r))
     = (if status r = success_status then error (statsRef st) else error (statsRef st) + 1)"
  "averageTime (statsRef (record_first st r)) = duration r"
  by (simp_all add: record_first_def Let_def count_status_fields)

lemma id_r_makeApiCallWithParams [simp]: "id_r (makeApiCallWithParams i ds n a net) = i"
  by (simp add: makeApiCallWithParams_def catch_result_def Let_def
      split: fetch_outcome.splits json_body.splits)

lemma id_r_makeApiCall [simp]: "id_r (makeApiCall e k) = k"
  by (simp add: makeApiCall_def split: prod.splits)

lemma signal_aborted_mono: "signal_aborted e j \<Longrightarrow> j \<le> k \<Longrightarrow> signal_aborted e k"
  by (auto simp: signal_aborted_def split: option.splits)

lemma batch_loop_rule:
  assumes "P i st"
    and "\<And>j s ds n. P j s \<Longrightarrow> int j < r \<Longrightarrow> \<not> signal_aborted e (j + 2)
           \<Longrightarrow> random_params e (j + 2) = (ds, n)
           \<Longrightarrow> P (Suc j) (record_next (await_frame e (j + 2) (issue (j + 2) ds n s))
                            (makeApiCall e (j + 2)))"
  shows "\<exists>k. i \<le> k \<and> P k (batch_loop e r i st) \<and> (k = i \<or> int k \<le> r)
             \<and> (int k < r \<longrightarrow> signal_aborted e (k + 2))"
  using assms
proof (induction e r i st rule: batch_loop.induct)
  case (1 e r i st)
  show ?case
  proof (cases "int i < r \<and> \<not> signal_aborted e (i + 2)")
    case False
    then have "batch_loop e r i st = st" by (auto simp: batch_loop.simps[of e r i st])
    with "1.prems"(1) False show ?thesis by auto
  next
    case True
    obtain ds n where rp: "random_params e (i + 2) = (ds, n)" by (cases "random_params e (i + 2)")
    let ?st' = "record_next (await_frame e (i + 2) (issue (i + 2) ds n st)) (makeApiCall e (i + 2))"
    from True rp have eq: "batch_loop e r i st = batch_loop e r (Suc i) ?st'"
      by (simp add: batch_loop.simps[of e r i st])
    from True rp "1.prems" have P': "P (Suc i) ?st'" by blast
    from True have a: "int i < r" "\<not> signal_aborted e (i + 2)" by auto
    from "1.IH"[OF a rp[symmetric] P' "1.prems"(2)]
    obtain k where "Suc i \<le> k" "P k (batch_loop e r (Suc i) ?st')" "k = Suc i \<or> int k \<le> r"
      "int k < r \<longrightarrow> signal_aborted e (k + 2)" by blast
    with a eq show ?thesis by (intro exI[of _ k]) auto
  qed
qed

lemma batch_loop_aborted:
  assumes "signal_aborted e 1"
  shows "batch_loop e r 0 st = st"
proof -
  from assms have "signal_aborted e (0 + 2)" by (rule signal_aborted_mono) simp
  then show ?thesis by (subst batch_loop.simps) simp
qed

subsection \<open>The steps of the earlier page's run\<close>

lemma issue_m_fields [simp]:
  "trace_m (issue_m k ds n st) = trace_m st @ [Issued k ds n]"
  "batchResults_m (issue_m k ds n st) = batchResults_m st"
  "successCount (issue_m k ds n st) = successCount st"
  "errorCount (issue_m k ds n st) = errorCount st"
  "totalTime (issue_m k ds n st) = totalTime st"
  "published (issue_m k ds n st) = published st"
  by (simp_all add: issue_m_def)

lemma setStats_fields [simp]:
  "trace_m (setStats st) = trace_m st"
  "batchResults_m (setStats st) = batchResults_m st"
  "successCount (setStats st) = successCount st"
  "errorCount (setStats st) = errorCount st"
  "totalTime (setStats st) = totalTime st"
  "published (setStats st) = current_stats st"
  by (simp_all add: setStats_def)

lemma current_stats_setStats [simp]: "current_stats (setStats st) = current_stats st"
  by (simp add: current_stats_def)

lemma record_seq_fields:
  "trace_m (record_seq st r) = trace_m st @ [Recorded r (current_stats (record_seq st r))]"
  "batchResults_m (record_seq st r) = batchResults_m st @ [r]"
  "successCount (record_seq st r)
     = successCount st + (if status r = success_status then 1 else 0)"
  "errorCount (record_seq st r) = errorCount st + (if status r = error_status then 1 else 0)"
  "totalTime (record_seq st r) = totalTime st + duration r"
  "published (record_seq st r) = published st"
  by (simp_all add: record_seq_def note_recorded_def current_stats_def)

lemma sequential_loop_rule:
  assumes "P i st"
    and "\<And>j s ds n. P j s \<Longrightarrow> int j < r \<Longrightarrow> \<not> signal_aborted e (j + 2)
           \<Longrightarrow> random_params e (j + 2) = (ds, n)
           \<Longrightarrow> P (Suc j) (record_seq (issue_m (j + 2) ds n s) (makeApiCall e (j + 2)))"
    and "\<And>j s. P j s \<Longrightarrow> P j (setStats s)"
  shows "\<exists>k. i \<le> k \<and> P k (sequential_loop e r i st) \<and> (k = i \<or> int k \<le> r)
             \<and> (int k < r \<longrightarrow> signal_aborted e (k + 2))"
  using assms
proof (induction e r i st rule: sequential_loop.induct)
  case (1 e r i st)
  show ?case
  proof (cases "int i < r \<and> \<not> signal_aborted e (i + 2)")
    case False
    then have "sequential_loop e r i st = st" by (auto simp: sequential_loop.simps[of e r i st])
    with "1.prems"(1) False show ?thesis by auto
  next
    case True
    obtain ds n where rp: "random_params e (i + 2) = (ds, n)" by (cases "random_params e (i + 2)")
    define st1 where "st1 = record_seq (issue_m (i + 2) ds n st) (makeApiCall e (i + 2))"
    define st2 where
      "st2 = (if (i + 1) mod 100 = 0 \<or> int i = r - 1 then setStats st1 else st1)"
    from True rp have eq: "sequential_loop e r i st = sequential_loop e r (Suc i) st2"
      by (simp add: sequential_loop.simps[of e r i st] st1_def st2_def Let_def)
    from True rp "1.prems"(1,2) have "P (Suc i) st1" unfolding st1_def by blast
    with "1.prems"(3) have P': "P (Suc i) st2" by (simp add: st2_def)
    from True have a: "int i < r" "\<not> signal_aborted e (i + 2)" by auto
    from "1.IH"[OF a rp[symmetric] st1_def st2_def P' "1.prems"(2,3)]
    obtain k where "Suc i \<le> k" "P k (sequential_loop e r (Suc i) st2)" "k = Suc i \<or> int k \<le> r"
      "int k < r \<longrightarrow> signal_aborted e (k + 2)" by blast
    with a eq show ?thesis by (intro exI[of _ k]) auto
  qed
qed

lemma sequential_loop_aborted:
  assumes "signal_aborted e 1"
  shows "sequential_loop e r 0 st = st"
proof -
  from assms have "signal_aborted e (0 + 2)" by (rule signal_aborted_mono) simp
  then show ?thesis by (subst sequential_loop.simps) simp
qed

lemma parallel_loop_rule:
  assumes "P b st"
    and "\<And>j s. P j s \<Longrightarrow> 1 \<le> tc \<Longrightarrow> int j < \<lceil>real_of_int r / real tc\<rceil>
           \<Longrightarrow> \<not> signal_aborted e (j * tc + 2)
           \<Longrightarrow> P (Suc j) (run_batch e (j * tc) (nat (min (int (j * tc + tc)) r)) s)"
  shows "\<exists>k. b \<le> k \<and> P k (parallel_loop e r tc b st)"
  using assms
proof (induction e r tc b st rule: parallel_loop.induct)
  case (1 e r tc b st)
  show ?case
  proof (cases "1 \<le> tc \<and> int b < \<lceil>real_of_int r / real tc\<rceil> \<and> \<not> signal_aborted e (b * tc + 2)")
    case False
    then have "parallel_loop e r tc b st = st"
      by (auto simp: parallel_loop.simps[of e r tc b st])
    with "1.prems"(1) show ?thesis by auto
  next
    case True
    let ?st' = "run_batch e (b * tc) (nat (min (int (b * tc + tc)) r)) st"
    from True have eq: "parallel_loop e r tc b st = parallel_loop e r tc (Suc b) ?st'"
      by (simp add: parallel_loop.simps[of e r tc b st] Let_def)
    from True "1.prems" have P': "P (Suc b) ?st'" by blast
    from True have a: "1 \<le> tc \<and> int b < \<lceil>real_of_int r / real tc\<rceil>" "\<not> signal_aborted e (b * tc + 2)"
      by auto
    from "1.IH"[OF a refl refl P' "1.prems"(2)]
    obtain k where "Suc b \<le> k" "P k (parallel_loop e r tc (Suc b) ?st')" by blast
    with eq show ?thesis by (intro exI[of _ k]) auto
  qed
qed

lemma parallel_loop_aborted:
  assumes "signal_aborted e 1"
  shows "parallel_loop e r tc 0 st = st"
proof -
  from assms have "signal_aborted e (0 * tc + 2)" by (rule signal_aborted_mono) simp
  then show ?thesis by (subst parallel_loop.simps) simp
qed

subsection \<open>Invariants of the current page's run\<close>

lemma list_all_snoc: "list_all P (xs @ [x]) \<longleftrightarrow> list_all P xs \<and> P x"
  by simp

text \<open>Statistics add up.\<close>

lemma record_next_consistent:
  "stats_consistent (statsRef st) \<Longrightarrow> stats_consistent (statsRef (record_next st r))"
  by (simp add: stats_consistent_def statsRef_record_next)

lemma record_first_consistent:
  "stats_consistent (statsRef st) \<Longrightarrow> stats_consistent (statsRef (record_first st r))"
  by (simp add: stats_consistent_def statsRef_record_first)

lemma runBatchCalls_cases:
  obtains (failed) "fst (correctValues (testValues e)) = [] \<or> snd (correctValues (testValues e)) = []"
      "runBatchCalls e count = StartFailed init_state"
  | (aborted) "fst (correctValues (testValues e)) \<noteq> []" "snd (correctValues (testValues e)) \<noteq> []"
      "signal_aborted e 1"
      "runBatchCalls e count = Finished (init_state\<lparr>graph := updateUIAsync_frame (graphMaxPoints e) (finally_flush (graph init_state))\<rparr>)"
  | (ran) st where "fst (correctValues (testValues e)) \<noteq> []" "snd (correctValues (testValues e)) \<noteq> []"
      "\<not> signal_aborted e 1"
      "st = batch_loop e (count - 1) 0
              (first_state e (fst (correctValues (testValues e))) (snd (correctValues (testValues e))))"
      "runBatchCalls e count = Finished (st\<lparr>graph := updateUIAsync_frame (graphMaxPoints e) (finally_flush (graph st))\<rparr>)"
proof -
  obtain ds n where c: "correctValues (testValues e) = (ds, n)"
    by (cases "correctValues (testValues e)")
  show ?thesis
  proof (cases "ds = [] \<or> n = []")
    case True
    with c have "runBatchCalls e count = StartFailed init_state"
      by (simp add: runBatchCalls_def)
    with True c failed show ?thesis by simp
  next
    case False
    show ?thesis
    proof (cases "signal_aborted e 1")
      case True
      with False c have "runBatchCalls e count = Finished (init_state\<lparr>graph :=
          updateUIAsync_frame (graphMaxPoints e) (finally_flush (graph init_state))\<rparr>)"
        by (simp add: runBatchCalls_def batch_loop_aborted Let_def)
      with True False c aborted show ?thesis by simp
    next
      case na: False
      with False c have "runBatchCalls e count = Finished ((batch_loop e (count - 1) 0 (first_state e ds n))
          \<lparr>graph := updateUIAsync_frame (graphMaxPoints e)
             (finally_flush (graph (batch_loop e (count - 1) 0 (first_state e ds n))))\<rparr>)"
        by (simp add: runBatchCalls_def Let_def first_state_def)
      with na False c ran show ?thesis by simp
    qed
  qed
qed

lemma first_state_fields:
  "trace (first_state e ds n)
     = [Issued 1 ds n, Recorded (makeApiCallWithParams 1 ds n (signal_aborted e 1) (network e 1))
          (statsRef (first_state e ds n))]"
  "batchResults (first_state e ds n)
     = [makeApiCallWithParams 1 ds n (signal_aborted e 1) (network e 1)]"
  by (simp_all add: first_state_def record_first_fields init_state_def)

lemma first_state_stats:
  "total (statsRef (first_state e ds n)) = 1"
  "averageTime (statsRef (first_state e ds n))
     = duration (makeApiCallWithParams 1 ds n (signal_aborted e 1) (network e 1))"
  "stats_consistent (statsRef (first_state e ds n))"
  by (simp_all add: first_state_def statsRef_record_first init_state_def zero_stats_def
      stats_consistent_def)

lemma page_run_consistent:
  "case runBatchCalls e count of
     StartFailed st \<Rightarrow> statsRef st = zero_stats \<and> batchResults st = [] \<and> trace st = []
   | Finished st \<Rightarrow> list_all event_consistent (trace st) \<and> stats_consistent (statsRef st)"
proof (cases rule: runBatchCalls_cases[where e = e and count = count])
  case failed
  then show ?thesis by (simp add: init_state_def)
next
  case aborted
  then show ?thesis by (simp add: init_state_def zero_stats_def stats_consistent_def)
next
  case (ran st)
  let ?P = "\<lambda>(i::nat) s. list_all event_consistent (trace s) \<and> stats_consistent (statsRef s)"
  have "\<exists>k. 0 \<le> k \<and> ?P k (batch_loop e (count - 1) 0
      (first_state e (fst (correctValues (testValues e))) (snd (correctValues (testValues e)))))
      \<and> (k = 0 \<or> int k \<le> count - 1) \<and> (int k < count - 1 \<longrightarrow> signal_aborted e (k + 2))"
    by (rule batch_loop_rule)
      (simp_all add: first_state_fields first_state_stats record_next_fields record_next_consistent)
  with ran show ?thesis by auto
qed

subsection \<open>Invariants of the earlier page's run\<close>

lemma runBatchCalls_modes_cases:
  obtains (failed) "fst (correctValues (testValues e)) = [] \<or> snd (correctValues (testValues e)) = []"
      "runBatchCalls_modes m tc e count = StartFailed init_modes"
  | (aborted) "fst (correctValues (testValues e)) \<noteq> []" "snd (correctValues (testValues e)) \<noteq> []"
      "signal_aborted e 1"
      "runBatchCalls_modes m tc e count = Finished init_modes"
  | (ran) "fst (correctValues (testValues e)) \<noteq> []" "snd (correctValues (testValues e)) \<noteq> []"
      "\<not> signal_aborted e 1"
      "runBatchCalls_modes m tc e count = Finished (rest_modes m tc e count
         (first_modes e (fst (correctValues (testValues e))) (snd (correctValues (testValues e)))))"
proof -
  obtain ds n where c: "correctValues (testValues e) = (ds, n)"
    by (cases "correctValues (testValues e)")
  show ?thesis
  proof (cases "ds = [] \<or> n = []")
    case True
    with c have "runBatchCalls_modes m tc e count = StartFailed init_modes"
      by (simp add: runBatchCalls_modes_def)
    with True c failed show ?thesis by simp
  next
    case False
    show ?thesis
    proof (cases "signal_aborted e 1")
      case True
      with False c have "runBatchCalls_modes m tc e count = Finished init_modes"
        by (simp add: runBatchCalls_modes_def sequential_loop_aborted parallel_loop_aborted Let_def)
      with True False c aborted show ?thesis by simp
    next
      case na: False
      with False c have "runBatchCalls_modes m tc e count
          = Finished (rest_modes m tc e count (first_modes e ds n))"
        by (simp add: runBatchCalls_modes_def Let_def first_modes_def rest_modes_def)
      with na False c ran show ?thesis by simp
    qed
  qed
qed

lemma first_modes_fields:
  "trace_m (first_modes e ds n)
     = [Issued 1 ds n, Recorded (makeApiCallWithParams 1 ds n (signal_aborted e 1) (network e 1))
          (current_stats (first_modes e ds n))]"
  "batchResults_m (first_modes e ds n)
     = [makeApiCallWithParams 1 ds n (signal_aborted e 1) (network e 1)]"
  "totalTime (first_modes e ds n)
     = duration (makeApiCallWithParams 1 ds n (signal_aborted e 1) (network e 1))"
  "published (first_modes e ds n) = current_stats (first_modes e ds n)"
  by (simp_all add: first_modes_def record_seq_fields init_modes_def)

text \<open>A rule for the two loops together.\<close>

lemma foldl_rule:
  assumes "Q st" and "\<And>s x. Q s \<Longrightarrow> Q (f s x)"
  shows "Q (foldl f st xs)"
  using assms(1) by (induction xs arbitrary: st) (simp_all add: assms(2))

lemma run_batch_rule:
  assumes "Q st"
    and "\<And>s i. Q s \<Longrightarrow> Q (issue_call e s i)"
    and "\<And>s x. Q s \<Longrightarrow> Q (record_settled a s x)"
    and "\<And>s. Q s \<Longrightarrow> Q (setStats s)"
  shows "Q (run_batch e a b st)"
  unfolding run_batch_def Let_def
  by (intro assms(4) foldl_rule[where Q = Q] assms(1) assms(2) assms(3))

lemma rest_modes_rule:
  assumes "Q st"
    and "\<And>s k ds n. Q s \<Longrightarrow> Q (issue_m k ds n s)"
    and "\<And>s r. Q s \<Longrightarrow> Q (record_seq s r)"
    and "\<And>s a x. Q s \<Longrightarrow> Q (record_settled a s x)"
    and "\<And>s. Q s \<Longrightarrow> Q (setStats s)"
  shows "Q (rest_modes m tc e count st)"
proof (cases "m = sequential")
  case True
  have "\<exists>k. 0 \<le> k \<and> (\<lambda>(i::nat) s. Q s) k (sequential_loop e (count - 1) 0 st)
      \<and> (k = 0 \<or> int k \<le> count - 1) \<and> (int k < count - 1 \<longrightarrow> signal_aborted e (k + 2))"
    by (rule sequential_loop_rule) (simp_all add: assms)
  with True show ?thesis by (auto simp: rest_modes_def)
next
  case False
  have "\<exists>k. 0 \<le> k \<and> (\<lambda>(i::nat) s. Q s) k (parallel_loop e (count - 1) tc 0 st)"
  proof (rule parallel_loop_rule)
    show "Q st" by (rule assms(1))
  next
    fix j s assume "Q s"
    then show "Q (run_batch e (j * tc) (nat (min (int (j * tc + tc)) (count - 1))) s)"
      by (rule run_batch_rule) (simp_all add: assms issue_call_def split: prod.splits)
  qed
  with False show ?thesis by (auto simp: rest_modes_def)
qed

text \<open>Statistics add up.\<close>

lemma stats_consistent_current:
  "stats_consistent (current_stats st)
     \<longleftrightarrow> successCount st + errorCount st = length (batchResults_m st)"
  by (simp add: stats_consistent_def current_stats_def)

lemma status_cases: "status r \<noteq> success_status \<longleftrightarrow> status r = error_status"
  by (cases "status r") simp_all

lemma record_settled_counts:
  "successCount st + errorCount st = length (batchResults_m st) \<Longrightarrow>
   successCount (record_settled a st x) + errorCount (record_settled a st x)
     = length (batchResults_m (record_settled a st x))"
  by (cases x) (auto simp: record_settled_def note_recorded_def Let_def split: settled.splits)

lemma record_settled_trace:
  "\<exists>r. trace_m (record_settled a st x)
      = trace_m st @ [Recorded r (current_stats (record_settled a st x))]
      \<and> batchResults_m (record_settled a st x) = batchResults_m st @ [r]
      \<and> totalTime (record_settled a st x) = totalTime st + duration r
      \<and> published (record_settled a st x) = published st"
  by (cases x) (auto simp: record_settled_def note_recorded_def Let_def current_stats_def
      split: settled.splits)

lemma modes_consistent_steps:
  "modes_consistent s \<Longrightarrow> modes_consistent (issue_m k ds n s)"
  "modes_consistent s \<Longrightarrow> modes_consistent (record_seq s r)"
  "modes_consistent s \<Longrightarrow> modes_consistent (record_settled a s x)"
  "modes_consistent s \<Longrightarrow> modes_consistent (setStats s)"
proof -
  show "modes_consistent s \<Longrightarrow> modes_consistent (issue_m k ds n s)"
    by (simp add: modes_consistent_def)
  show "modes_consistent s \<Longrightarrow> modes_consistent (setStats s)"
    by (simp add: modes_consistent_def stats_consistent_current)
  show "modes_consistent s \<Longrightarrow> modes_consistent (record_seq s r)"
    using status_cases[of r]
    by (auto simp add: modes_consistent_def record_seq_fields stats_consistent_current)
  assume s: "modes_consistent s"
  obtain r where r: "trace_m (record_settled a s x)
      = trace_m s @ [Recorded r (current_stats (record_settled a s x))]"
      "published (record_settled a s x) = published s"
    using record_settled_trace[of a s x] by blast
  from s record_settled_counts[of s a x] r
  show "modes_consistent (record_settled a s x)"
    by (simp add: modes_consistent_def stats_consistent_current)
qed

lemma modes_run_consistent:
  "case runBatchCalls_modes m tc e count of
     StartFailed st \<Rightarrow> published st = zero_stats \<and> batchResults_m st = [] \<and> trace_m st = []
   | Finished st \<Rightarrow> list_all event_consistent (trace_m st) \<and> stats_consistent (published st)
       \<and> stats_consistent (current_stats st)"
proof (cases rule: runBatchCalls_modes_cases[where e = e and m = m and tc = tc and count = count])
  case failed
  then show ?thesis by (simp add: init_modes_def)
next
  case aborted
  then show ?thesis
    by (simp add: init_modes_def zero_stats_def stats_consistent_def current_stats_def)
next
  case ran
  let ?c = "correctValues (testValues e)"
  have "modes_consistent (first_modes e (fst ?c) (snd ?c))"
    using status_cases[of "makeApiCallWithParams 1 (fst ?c) (snd ?c) (signal_aborted e 1) (network e 1)"]
    by (auto simp add: modes_consistent_def first_modes_fields stats_consistent_current
        first_modes_def record_seq_fields init_modes_def)
  then have "modes_consistent (rest_modes m tc e count (first_modes e (fst ?c) (snd ?c)))"
    by (rule rest_modes_rule) (simp_all add: modes_consistent_steps)
  with ran show ?thesis by (simp add: modes_consistent_def stats_consistent_current)
qed

text \<open>Order of a sequential run.\<close>

lemma in_order_step:
  assumes "in_order j tr rs" "id_r r = k" "k = j + 2"
  shows "in_order (Suc j) ((tr @ [Issued k ds n]) @ [Recorded r s]) (rs @ [r])"
proof -
  have "alternating [Issued k ds n, Recorded r s]" using assms(2) by simp
  with assms(1) have "alternating (tr @ [Issued k ds n, Recorded r s])"
    by (intro alternating_append) (simp_all add: in_order_def)
  with assms show ?thesis
    by (simp add: in_order_def recorded_ids_append issued_ids_append)
qed

lemma in_order_first: "id_r r = 1 \<Longrightarrow> in_order 0 [Issued 1 ds n, Recorded r s] [r]"
  by (simp add: in_order_def)

lemma not_aborted: "abortAt e = None \<Longrightarrow> \<not> signal_aborted e k"
  by (simp add: signal_aborted_def)

lemma page_run_in_order:
  assumes "abortAt e = None" "1 \<le> count"
    "fst (correctValues (testValues e)) \<noteq> []" "snd (correctValues (testValues e)) \<noteq> []"
  shows "\<exists>st. runBatchCalls e count = Finished st
           \<and> in_order (nat (count - 1)) (trace st) (batchResults st)"
proof (cases rule: runBatchCalls_cases[where e = e and count = count])
  case failed
  with assms show ?thesis by simp
next
  case aborted
  with assms not_aborted show ?thesis by simp
next
  case (ran st)
  let ?c = "correctValues (testValues e)"
  let ?P = "\<lambda>(i::nat) (s::run_state). in_order i (trace s) (batchResults s)"
  have "\<exists>k. 0 \<le> k \<and> ?P k (batch_loop e (count - 1) 0 (first_state e (fst ?c) (snd ?c)))
      \<and> (k = 0 \<or> int k \<le> count - 1) \<and> (int k < count - 1 \<longrightarrow> signal_aborted e (k + 2))"
  proof (rule batch_loop_rule)
    show "?P 0 (first_state e (fst ?c) (snd ?c))"
      unfolding first_state_fields by (rule in_order_first) simp
  next
    fix j s ds n
    assume "?P j s"
    then show "?P (Suc j) (record_next (await_frame e (j + 2) (issue (j + 2) ds n s))
        (makeApiCall e (j + 2)))"
      by (simp add: record_next_fields in_order_step del: append_assoc)
  qed
  then obtain k where k: "?P k st" "k = 0 \<or> int k \<le> count - 1"
    "int k < count - 1 \<longrightarrow> signal_aborted e (k + 2)"
    using ran(4) by blast
  from k(2,3) assms(1,2) not_aborted[of e] have "k = nat (count - 1)" by auto
  with k(1) ran(5) show ?thesis by simp
qed

lemma modes_run_in_order:
  assumes "abortAt e = None" "1 \<le> count"
    "fst (correctValues (testValues e)) \<noteq> []" "snd (correctValues (testValues e)) \<noteq> []"
  shows "\<exists>st. runBatchCalls_modes sequential tc e count = Finished st
           \<and> in_order (nat (count - 1)) (trace_m st) (batchResults_m st)"
proof (cases rule: runBatchCalls_modes_cases[where e = e and m = sequential and tc = tc and count = count])
  case failed
  with assms show ?thesis by simp
next
  case aborted
  with assms not_aborted show ?thesis by simp
next
  case ran
  let ?c = "correctValues (testValues e)"
  let ?P = "\<lambda>(i::nat) (s::modes_state). in_order i (trace_m s) (batchResults_m s)"
  have "\<exists>k. 0 \<le> k \<and> ?P k (sequential_loop e (count - 1) 0 (first_modes e (fst ?c) (snd ?c)))
      \<and> (k = 0 \<or> int k \<le> count - 1) \<and> (int k < count - 1 \<longrightarrow> signal_aborted e (k + 2))"
  proof (rule sequential_loop_rule)
    show "?P 0 (first_modes e (fst ?c) (snd ?c))"
      unfolding first_modes_fields by (rule in_order_first) simp
  next
    fix j s ds n
    assume "?P j s"
    then show "?P (Suc j) (record_seq (issue_m (j + 2) ds n s) (makeApiCall e (j + 2)))"
      by (simp add: record_seq_fields in_order_step del: append_assoc)
  next
    fix j s assume "?P j s" then show "?P j (setStats s)" by simp
  qed
  then obtain k where k: "?P k (rest_modes sequential tc e count (first_modes e (fst ?c) (snd ?c)))"
    "k = 0 \<or> int k \<le> count - 1" "int k < count - 1 \<longrightarrow> signal_aborted e (k + 2)"
    by (auto simp: rest_modes_def)
  from k(2,3) assms(1,2) not_aborted[of e] have "k = nat (count - 1)" by auto
  with k(1) ran(4) show ?thesis by simp
qed

subsection \<open>One batch of the parallel loop\<close>




lemma foldl_issue_call:
  "trace_m (foldl (issue_call e) st is) = trace_m st @ issued_events e is"
  "batchResults_m (foldl (issue_call e) st is) = batchResults_m st"
  "successCount (foldl (issue_call e) st is) = successCount st"
  "errorCount (foldl (issue_call e) st is) = errorCount st"
  "totalTime (foldl (issue_call e) st is) = totalTime st"
  by (induction "is" arbitrary: st)
     (simp_all add: issued_events_def issue_call_def split: prod.splits)

lemma foldl_record_settled_trace:
  "\<exists>recs. trace_m (foldl (record_settled a) st xs) = trace_m st @ recs
      \<and> list_all is_recorded recs \<and> length recs = length xs"
proof (induction xs arbitrary: st)
  case Nil
  show ?case by simp
next
  case (Cons x xs)
  obtain r where r: "trace_m (record_settled a st x)
      = trace_m st @ [Recorded r (current_stats (record_settled a st x))]"
    using record_settled_trace[of a st x] by blast
  from Cons[of "record_settled a st x"] obtain recs where
    "trace_m (foldl (record_settled a) (record_settled a st x) xs)
       = trace_m (record_settled a st x) @ recs" "list_all is_recorded recs" "length recs = length xs"
    by blast
  with r show ?case
    by (intro exI[of _ "Recorded r (current_stats (record_settled a st x)) # recs"]) simp
qed

lemma run_batch_trace:
  "\<exists>recs. trace_m (run_batch e a b st) = trace_m st @ issued_events e (issue_batch e a b) @ recs
      \<and> list_all is_recorded recs \<and> length recs = length (issue_batch e a b)"
proof -
  let ?st1 = "foldl (issue_call e) st (issue_batch e a b)"
  let ?xs = "enumerate 0 (map (\<lambda>i. Fulfilled (makeApiCall e (i + 2))) (issue_batch e a b))"
  obtain recs where "trace_m (foldl (record_settled a) ?st1 ?xs) = trace_m ?st1 @ recs"
    "list_all is_recorded recs" "length recs = length ?xs"
    using foldl_record_settled_trace[of a ?st1 ?xs] by blast
  then show ?thesis
    by (intro exI[of _ recs]) (simp add: run_batch_def Let_def foldl_issue_call)
qed

lemma recorded_only:
  "list_all is_recorded recs \<Longrightarrow> issued_ids recs = []"
  "list_all is_recorded recs \<Longrightarrow> list_all (issued_ok e c) recs"
  "list_all is_recorded recs \<Longrightarrow> list_all (issued_unaborted e) recs"
  "list_all is_recorded recs \<Longrightarrow> in_flight recs = - int (length recs)"
proof -
  show "list_all is_recorded recs \<Longrightarrow> issued_ids recs = []"
    by (induction recs rule: issued_ids.induct) simp_all
  show "list_all is_recorded recs \<Longrightarrow> list_all (issued_ok e c) recs"
    by (induction recs rule: issued_ids.induct) simp_all
  show "list_all is_recorded recs \<Longrightarrow> list_all (issued_unaborted e) recs"
    by (induction recs rule: issued_ids.induct) simp_all
  show "list_all is_recorded recs \<Longrightarrow> in_flight recs = - int (length recs)"
    by (induction recs rule: issued_ids.induct) simp_all
qed

lemma issued_events_facts:
  "issued_ids (issued_events e is) = map (\<lambda>i. i + 2) is"
  "list_all (issued_ok e c) (issued_events e is)"
  "in_flight (issued_events e is) = int (length is)"
  "length (issued_events e is) = length is"
  by (induction "is") (simp_all add: issued_events_def)









text \<open>The pool of the parallel loop.\<close>

lemma in_flight_le_issued: "in_flight tr \<le> int (length (issued_ids tr))"
  by (induction tr rule: in_flight.induct) simp_all

lemma issued_ids_take: "length (issued_ids (take n tr)) \<le> length (issued_ids tr)"
proof -
  have "issued_ids tr = issued_ids (take n tr) @ issued_ids (drop n tr)"
    by (simp only: issued_ids_append[symmetric] append_take_drop_id)
  then show ?thesis by simp
qed

lemma pool_bounded_iff:
  "pool_bounded K tr \<longleftrightarrow> (\<forall>n \<le> length tr. in_flight (take n tr) \<le> int K)"
  by (auto simp: pool_bounded_def list_all_iff less_Suc_eq_le)

lemma pool_bounded_few: "length (issued_ids tr) \<le> K \<Longrightarrow> pool_bounded K tr"
  unfolding pool_bounded_iff
  using in_flight_le_issued issued_ids_take by (meson le_trans of_nat_mono order_trans)

lemma pool_bounded_append:
  assumes "pool_bounded K tr" "in_flight tr = 0" "pool_bounded K tr'"
  shows "pool_bounded K (tr @ tr')"
  unfolding pool_bounded_iff
proof (intro allI impI)
  fix n assume "n \<le> length (tr @ tr')"
  show "in_flight (take n (tr @ tr')) \<le> int K"
  proof (cases "n \<le> length tr")
    case True
    with assms(1) show ?thesis by (simp add: pool_bounded_iff)
  next
    case False
    with \<open>n \<le> length (tr @ tr')\<close> have "n - length tr \<le> length tr'" by simp
    with assms(3) have "in_flight (take (n - length tr) tr') \<le> int K"
      by (simp add: pool_bounded_iff)
    with False assms(2) show ?thesis by (simp add: in_flight_append)
  qed
qed

lemma batches_ok_append:
  "batches_ok c a (tr @ tr') \<longleftrightarrow>
     batches_ok c a tr \<and> batches_ok (c + in_flight tr) (ends_recorded a tr) tr'"
  by (induction c a tr rule: batches_ok.induct) (simp_all add: algebra_simps)

lemma batches_ok_recorded: "list_all is_recorded recs \<Longrightarrow> batches_ok c a recs"
  by (induction c a recs rule: batches_ok.induct) simp_all

lemma batches_ok_issued:
  "(a \<longrightarrow> c = 0) \<Longrightarrow> batches_ok c a (issued_events e is)"
  by (induction "is" arbitrary: c a) (simp_all add: issued_events_def)

lemma length_issue_batch:
  "length (issue_batch e a (nat (min (int (a + tc)) r))) \<le> tc"
proof -
  have "length (issue_batch e a (nat (min (int (a + tc)) r)))
      \<le> length [a..<nat (min (int (a + tc)) r)]"
    unfolding issue_batch_def by (rule length_takeWhile_le)
  also have "\<dots> = nat (min (int (a + tc)) r) - a" by simp
  also have "\<dots> \<le> nat (int (a + tc)) - a" by (intro diff_le_mono nat_mono) simp
  also have "\<dots> = tc" by simp
  finally show ?thesis .
qed

lemma pool_inv_batch:
  assumes "pool_inv K st" "length (issue_batch e a b) \<le> K"
  shows "pool_inv K (run_batch e a b st)"
proof -
  obtain recs where recs: "trace_m (run_batch e a b st)
      = trace_m st @ issued_events e (issue_batch e a b) @ recs" "list_all is_recorded recs"
      "length recs = length (issue_batch e a b)"
    using run_batch_trace[of e a b st] by blast
  let ?new = "issued_events e (issue_batch e a b) @ recs"
  have fl: "in_flight ?new = 0"
    by (simp add: in_flight_append issued_events_facts recorded_only(4)[OF recs(2)] recs(3))
  have "length (issued_ids ?new) \<le> K"
    using assms(2)
    by (simp add: issued_ids_append issued_events_facts recorded_only(1)[OF recs(2)])
  then have pb: "pool_bounded K ?new" by (rule pool_bounded_few)
  have "batches_ok 0 (ends_recorded False (trace_m st)) ?new"
    by (simp add: batches_ok_append[of _ _ "issued_events e (issue_batch e a b)"]
        batches_ok_issued batches_ok_recorded[OF recs(2)])
  with assms(1) have "batches_ok 0 False (trace_m st @ ?new)"
    by (simp add: batches_ok_append[of 0 False "trace_m st"] pool_inv_def)
  moreover have "pool_bounded K (trace_m st @ ?new)"
    by (rule pool_bounded_append) (use assms(1) pb in \<open>simp_all add: pool_inv_def\<close>)
  moreover from assms(1) fl have "in_flight (trace_m st @ ?new) = 0"
    by (simp only: in_flight_append pool_inv_def)
  ultimately show ?thesis unfolding pool_inv_def recs(1) by simp
qed










section \<open>Evaluating the example environment\<close>

lemma example_env_fields:
  "correctValues (testValues example_env) = (''1444-01'', ''1234567890'')"
  "abortAt example_env = None"
  "signal_aborted example_env k = False"
  "frame example_env k = True"
  "graphMaxPoints example_env = 50"
  "network example_env k = ok_response (10 * real k)"
  by (simp_all add: example_env_def correctValues_def or_empty_def signal_aborted_def)

lemma example_random: "random_params example_env k = (''1450-01'', ''437500000'')"
proof -
  have a: "\<lfloor>fmul (1 / 2) 100\<rfloor> = 50" by (simp add: fmul_def)
  have "fmul (1 / 64) 12 = 3 / 16" by (simp add: round_double_code)
  then have b: "\<lfloor>fmul (1 / 64) 12\<rfloor> = 0" by (simp only:) simp
  have c: "\<lfloor>fmul (3 / 8) 900000000\<rfloor> = 337500000" by (simp add: fmul_def)
  have "generateRandomDateString (1 / 2) (1 / 64) = ''1450-01''"
    unfolding generateRandomDateString_def Let_def a b
    by (simp add: String_num_def padStart_def string_of_nat.simps digit_char_def)
  moreover have "generateRandomNIN (3 / 8) = ''437500000''"
    unfolding generateRandomNIN_def c
    by (simp add: String_num_def string_of_nat.simps digit_char_def)
  ultimately show ?thesis by (simp add: random_params_def example_env_def)
qed

lemma example_first:
  "makeApiCallWithParams k ds n False (ok_response t)
     = \<lparr>id_r = k, dateString = ds, nin = n, status = success_status,
        error_r = None, duration = t, statusCode = Some 200\<rparr>"
  by (simp add: makeApiCallWithParams_def fetch_def ok_response_def GET_def
      truthy_str_def resp_ok_def)

lemma example_call:
  "makeApiCall example_env k
     = \<lparr>id_r = k, dateString = ''1450-01'', nin = ''437500000'', status = success_status,
        error_r = None, duration = 10 * real k, statusCode = Some 200\<rparr>"
  by (simp add: makeApiCall_def example_random example_env_fields example_first)

lemmas modes_steps = runBatchCalls_modes_def example_env_fields example_random example_first
  example_call init_modes_def zero_stats_def issue_m_def record_seq_def note_recorded_def
  current_stats_def setStats_def record_settled_def run_batch_def issue_batch_def issue_call_def
  Let_def sequential_loop.simps parallel_loop.simps enumerate_eq_zip upt_rec

lemmas page_steps = runBatchCalls_def example_env_fields example_random example_first
  example_call init_state_def zero_stats_def empty_graph_def issue_def await_frame_def
  record_first_def record_next_def count_status_def addGraphDataPointToRef_def graph_point_def
  updateUIAsync_frame_def finally_flush_def js_slice_def Let_def batch_loop.simps

section \<open>The claims about the batch runs\<close>



text \<open>
  C8. A sequential run for \<open>count \<ge> 1\<close> calls that nobody aborts records the outcomes
  \<open>1, 2, \<dots>, count\<close> in this order, on the current page and in the sequential mode of
  the earlier one; the calls are issued in the same order, and each outcome is recorded
  right after its call is issued and before the next call is.
\<close>

theorem sequential_order:
  assumes "abortAt e = None" and "1 \<le> count"
    and "fst (correctValues (testValues e)) \<noteq> []" and "snd (correctValues (testValues e)) \<noteq> []"
  shows "(\<exists>st. runBatchCalls e count = Finished st
            \<and> map id_r (batchResults st) = [1..<nat count + 1]
            \<and> recorded_ids (trace st) = [1..<nat count + 1]
            \<and> issued_ids (trace st) = [1..<nat count + 1]
            \<and> alternating (trace st))
       \<and> (\<exists>st. runBatchCalls_modes sequential threadCount e count = Finished st
            \<and> map id_r (batchResults_m st) = [1..<nat count + 1]
            \<and> recorded_ids (trace_m st) = [1..<nat count + 1]
            \<and> issued_ids (trace_m st) = [1..<nat count + 1]
            \<and> alternating (trace_m st))"
proof -
  from assms(2) have n: "nat (count - 1) + 2 = nat count + 1" by simp
  from page_run_in_order[OF assms] modes_run_in_order[OF assms, of threadCount]
  show ?thesis unfolding in_order_def n by blast
qed

theorem sequential_order_witness:
  "abortAt example_env = None \<and> (1::int) \<le> 3
   \<and> fst (correctValues (testValues example_env)) \<noteq> []
   \<and> snd (correctValues (testValues example_env)) \<noteq> []
   \<and> (\<exists>st. runBatchCalls example_env 3 = Finished st
         \<and> map id_r (batchResults st) = [1, 2, 3] \<and> recorded_ids (trace st) = [1, 2, 3])"
proof -
  have "[1..<nat 3 + 1] = [1, 2, 3]" by (simp add: upt_rec)
  with sequential_order[of example_env 3 2] show ?thesis
    by (auto simp add: example_env_fields)
qed

text \<open>
  C5. Every time an outcome is recorded, the successes and the errors counted so far
  add up to the total: on the current page, and in both modes of the earlier page, where
  the counters are local variables and the total is the length of the result list. The
  statistics published with \<open>setStats\<close> add up as well, and so do the counters after a
  rejected promise is recorded in parallel mode.
\<close>

theorem stats_add_up:
  assumes "1 \<le> threadCount"
  shows "(case runBatchCalls e count of
            StartFailed st \<Rightarrow> statsRef st = zero_stats
          | Finished st \<Rightarrow> list_all event_consistent (trace st) \<and> stats_consistent (statsRef st))
       \<and> (case runBatchCalls_modes mode threadCount e count of
            StartFailed st \<Rightarrow> published st = zero_stats
          | Finished st \<Rightarrow> list_all event_consistent (trace_m st)
              \<and> stats_consistent (published st) \<and> stats_consistent (current_stats st))
       \<and> (stats_consistent (current_stats st0)
            \<longrightarrow> stats_consistent (current_stats (record_settled startIdx st0 entry)))"
proof (intro conjI impI)
  show "case runBatchCalls e count of
            StartFailed st \<Rightarrow> statsRef st = zero_stats
          | Finished st \<Rightarrow> list_all event_consistent (trace st) \<and> stats_consistent (statsRef st)"
    using page_run_consistent[of e count] by (simp split: run_result.splits)
  show "case runBatchCalls_modes mode threadCount e count of
            StartFailed st \<Rightarrow> published st = zero_stats
          | Finished st \<Rightarrow> list_all event_consistent (trace_m st)
              \<and> stats_consistent (published st) \<and> stats_consistent (current_stats st)"
    using modes_run_consistent[of mode threadCount e count] by (simp split: run_result.splits)
  assume "stats_consistent (current_stats st0)"
  then show "stats_consistent (current_stats (record_settled startIdx st0 entry))"
    using record_settled_counts[of st0 startIdx entry] by (simp add: stats_consistent_current)
qed

theorem stats_add_up_witness:
  "(1::nat) \<le> 2
   \<and> (case runBatchCalls example_env 3 of
         StartFailed st \<Rightarrow> False
       | Finished st \<Rightarrow> statsRef st = \<lparr>total = 3, success = 3, error = 0, averageTime = 20\<rparr>
           \<and> stats_consistent (statsRef st) \<and> list_all event_consistent (trace st))
   \<and> stats_consistent (current_stats init_modes)
   \<and> stats_consistent (current_stats (record_settled 0 init_modes (0, Rejected None [] [])))"
proof -
  have run: "case runBatchCalls example_env 3 of
         StartFailed st \<Rightarrow> False
       | Finished st \<Rightarrow> statsRef st = \<lparr>total = 3, success = 3, error = 0, averageTime = 20\<rparr>"
    by (simp add: page_steps)
  have z: "stats_consistent (current_stats init_modes)"
    by (simp add: stats_consistent_def current_stats_def init_modes_def)
  from stats_add_up[of 2 example_env 3 parallel init_modes 0 "(0, Rejected None [] [])"] run z
  show ?thesis by (auto split: run_result.splits)
qed






text \<open>
  C2, as the code has it. In parallel mode with \<open>threadCount \<ge> 1\<close>, at every point of a
  run at most \<open>threadCount\<close> calls are issued and not yet recorded. The calls are issued
  in batches: after an outcome has been recorded, the next call is issued only when no
  call is in flight, that is after \<open>Promise.allSettled\<close> has returned the whole batch and
  every outcome of it is recorded.
\<close>

theorem parallel_pool_batches:
  assumes "1 \<le> threadCount"
  shows "case runBatchCalls_modes parallel threadCount e count of
           StartFailed st \<Rightarrow> trace_m st = []
         | Finished st \<Rightarrow> pool_bounded threadCount (trace_m st)
             \<and> batches_ok 0 False (trace_m st)"
proof (cases rule: runBatchCalls_modes_cases[where e = e and m = parallel and tc = threadCount and count = count])
  case failed
  then show ?thesis by (simp add: init_modes_def)
next
  case aborted
  then show ?thesis by (simp add: init_modes_def pool_bounded_iff)
next
  case ran
  let ?c = "correctValues (testValues e)"
  let ?st1 = "first_modes e (fst ?c) (snd ?c)"
  have first: "pool_inv threadCount ?st1"
    unfolding pool_inv_def first_modes_fields using assms
    by (auto intro!: pool_bounded_few)
  have "\<exists>k. 0 \<le> k \<and> (\<lambda>(b::nat) s. pool_inv threadCount s) k (parallel_loop e (count - 1) threadCount 0 ?st1)"
  proof (rule parallel_loop_rule)
    show "pool_inv threadCount ?st1" by (rule first)
  next
    fix j s
    assume "pool_inv threadCount s"
    then show "pool_inv threadCount (run_batch e (j * threadCount) (nat (min (int (j * threadCount + threadCount)) (count - 1))) s)"
      by (rule pool_inv_batch) (rule length_issue_batch)
  qed
  with ran show ?thesis by (simp add: rest_modes_def pool_inv_def)
qed

theorem parallel_pool_batches_witness:
  "(1::nat) \<le> 2
   \<and> (case runBatchCalls_modes parallel 2 example_env 4 of
         StartFailed st \<Rightarrow> False
       | Finished st \<Rightarrow> issued_ids (trace_m st) = [1, 2, 3, 4]
           \<and> in_flight (take 4 (trace_m st)) = 2
           \<and> pool_bounded 2 (trace_m st) \<and> batches_ok 0 False (trace_m st))"
proof -
  have run: "case runBatchCalls_modes parallel 2 example_env 4 of
         StartFailed st \<Rightarrow> False
       | Finished st \<Rightarrow> issued_ids (trace_m st) = [1, 2, 3, 4]
           \<and> in_flight (take 4 (trace_m st)) = 2"
    by (simp add: modes_steps)
  from parallel_pool_batches[of 2 example_env 4] run
  show ?thesis by (auto split: run_result.splits)
qed

text \<open>
  C2 as stated fails. With two threads and four calls the trace is: call 1 issued and
  recorded, calls 2 and 3 issued, outcomes 2 and 3 recorded, call 4 issued and recorded.
  After outcome 2 is recorded one call is in flight, call 4 is still to be issued, and
  what follows is the recording of outcome 3, not the issue of call 4.
\<close>

theorem parallel_pool_not_refilled:
  "case runBatchCalls_modes parallel 2 example_env 4 of
     StartFailed st \<Rightarrow> False
   | Finished st \<Rightarrow> issued_ids (trace_m st) = [1, 2, 3, 4]
       \<and> recorded_ids (trace_m st) = [1, 2, 3, 4]
       \<and> recorded_ids (take 5 (trace_m st)) = [1, 2]
       \<and> in_flight (take 5 (trace_m st)) = 1
       \<and> issued_ids (drop 5 (trace_m st)) = [4]
       \<and> is_recorded (trace_m st ! 5)
       \<and> \<not> refills_at_once (trace_m st)"
  by (simp add: modes_steps)







section \<open>Properties of the response-time series\<close>

text \<open>
  What holds of the series. The frame callback of the current page keeps the series
  within \<open>graphMaxPoints\<close> as long as the buffer is shorter than that. On the earlier
  page, \<open>addGraphDataPoint\<close> with no timer pending and an empty buffer appends the point
  and keeps the last 100.
\<close>

lemma js_slice_last: "0 < k \<Longrightarrow> js_slice (- int k) xs = drop (length xs - k) xs"
  by (simp add: js_slice_def nat_diff_distrib')

lemma frame_flush_bounded:
  assumes "int (length (graphDataBuffer g)) < maxPoints"
    and "int (length (responseTimeData g)) \<le> maxPoints"
  shows "int (length (responseTimeData (updateUIAsync_frame maxPoints g))) \<le> maxPoints"
  using assms by (auto simp: updateUIAsync_frame_def Let_def js_slice_def)

lemma frame_flush_window:
  assumes "int (length (graphDataBuffer g)) < maxPoints" and "graphDataBuffer g \<noteq> []"
    and "maxPoints < int (length (responseTimeData g) + length (graphDataBuffer g))"
  shows "responseTimeData (updateUIAsync_frame maxPoints g)
           = drop (length (responseTimeData g) + length (graphDataBuffer g) - nat maxPoints)
               (responseTimeData g @ graphDataBuffer g)"
proof -
  let ?p = "responseTimeData g" and ?b = "graphDataBuffer g"
  from assms have k: "0 < nat maxPoints - length ?b" by linarith
  have "js_slice (- (maxPoints - int (length ?b))) ?p
      = drop (length ?p - (nat maxPoints - length ?b)) ?p"
    using js_slice_last[OF k, of ?p] assms(1) by (simp add: of_nat_diff)
  moreover from assms have "length ?p - (nat maxPoints - length ?b)
      = length ?p + length ?b - nat maxPoints"
    by linarith
  moreover from assms have "length ?p + length ?b - nat maxPoints \<le> length ?p"
    by linarith
  ultimately show ?thesis using assms
    by (simp add: updateUIAsync_frame_def Let_def)
qed

lemma earlier_page_graph_window:
  assumes "\<not> graphUpdateTimer g" and "graphDataBuffer_t g = []"
  shows "responseTimeData_t (addGraphDataPoint g r)
           = drop (length (responseTimeData_t g) + 1 - 100)
               (responseTimeData_t g @ [graph_point (graphSequence_t g + 1) r])"
    and "length (responseTimeData_t (addGraphDataPoint g r)) \<le> 100"
    and "\<not> graphUpdateTimer (addGraphDataPoint g r)"
    and "graphDataBuffer_t (addGraphDataPoint g r) = []"
proof -
  have n: "nat (int (length (responseTimeData_t g)) - 99) = length (responseTimeData_t g) - 99"
    by linarith
  from assms show "responseTimeData_t (addGraphDataPoint g r)
           = drop (length (responseTimeData_t g) + 1 - 100)
               (responseTimeData_t g @ [graph_point (graphSequence_t g + 1) r])"
    by (simp add: addGraphDataPoint_def Let_def js_slice_def n)
  from assms show "length (responseTimeData_t (addGraphDataPoint g r)) \<le> 100"
    by (simp add: addGraphDataPoint_def Let_def js_slice_def)
  from assms show "\<not> graphUpdateTimer (addGraphDataPoint g r)"
    by (simp add: addGraphDataPoint_def Let_def)
  from assms show "graphDataBuffer_t (addGraphDataPoint g r) = []"
    by (simp add: addGraphDataPoint_def Let_def)
qed

lemma one_pending_step:
  assumes "one_pending i g"
  shows "one_pending (Suc i) (addGraphDataPointToRef (updateUIAsync_frame 50 g) r)"
proof -
  from assms have b: "length (graphDataBuffer g) = 1" and d: "length (responseTimeData g) = min i 50"
    by (simp_all add: one_pending_def)
  show ?thesis
  proof (cases "i < 50")
    case True
    with b d show ?thesis
      by (simp add: one_pending_def addGraphDataPointToRef_def updateUIAsync_frame_def Let_def)
  next
    case False
    with b d show ?thesis
      by (simp add: one_pending_def addGraphDataPointToRef_def updateUIAsync_frame_def Let_def
          js_slice_def)
  qed
qed

lemma example_run_graph:
  assumes "1 \<le> count"
  shows "case runBatchCalls example_env count of
           StartFailed st \<Rightarrow> False
         | Finished st \<Rightarrow> length (responseTimeData (graph st)) = min (nat (count - 1)) 50 + 1"
proof (cases rule: runBatchCalls_cases[where e = example_env and count = count])
  case failed
  then show ?thesis by (simp add: example_env_fields)
next
  case aborted
  then show ?thesis by (simp add: example_env_fields)
next
  case (ran st)
  let ?P = "\<lambda>(i::nat) (s::run_state). one_pending i (graph s)"
  have "\<exists>k. 0 \<le> k \<and> ?P k (batch_loop example_env (count - 1) 0
        (first_state example_env (fst (correctValues (testValues example_env)))
           (snd (correctValues (testValues example_env)))))
      \<and> (k = 0 \<or> int k \<le> count - 1)
      \<and> (int k < count - 1 \<longrightarrow> signal_aborted example_env (k + 2))"
  proof (rule batch_loop_rule)
    show "?P 0 (first_state example_env (fst (correctValues (testValues example_env)))
           (snd (correctValues (testValues example_env))))"
      by (simp add: first_state_def record_first_fields await_frame_def example_env_fields
          init_state_def empty_graph_def updateUIAsync_frame_def addGraphDataPointToRef_def
          one_pending_def)
  next
    fix j s ds n
    assume "?P j s"
    then show "?P (Suc j) (record_next (await_frame example_env (j + 2) (issue (j + 2) ds n s))
        (makeApiCall example_env (j + 2)))"
      by (simp add: record_next_fields await_frame_def example_env_fields one_pending_step)
  qed
  then obtain k where k: "one_pending k (graph st)" "k = 0 \<or> int k \<le> count - 1"
    "int k < count - 1 \<longrightarrow> signal_aborted example_env (k + 2)"
    using ran(4) by blast
  from k(2,3) assms have "k = nat (count - 1)" by (auto simp: example_env_fields)
  with k(1) have "length (graphDataBuffer (graph st)) = 1"
    "length (responseTimeData (graph st)) = min (nat (count - 1)) 50"
    by (simp_all add: one_pending_def)
  then have "length (responseTimeData (updateUIAsync_frame (graphMaxPoints example_env)
      (finally_flush (graph st)))) = min (nat (count - 1)) 50 + 1"
    by (simp add: finally_flush_def updateUIAsync_frame_def js_slice_def)
  with ran(5) show ?thesis by simp
qed

text \<open>
  C4 fails on the current page. With \<open>graphMaxPoints = 50\<close>, a run of 51 calls and an
  animation frame during every call, the series ends with 51 points: the \<open>finally\<close>
  block of \<open>runBatchCalls\<close> trims with \<open>slice(-100)\<close>, not with \<open>graphMaxPoints\<close>. And
  a frame that finds as many points in the buffer as \<open>graphMaxPoints\<close> allows keeps the
  whole series in front of them, since \<open>slice(-0)\<close> is the whole array: 50 points in
  the series and 50 in the buffer give 100.
\<close>

theorem graph_overflow:
  "graphMaxPoints example_env = 50
   \<and> (case runBatchCalls example_env 51 of
         StartFailed st \<Rightarrow> False
       | Finished st \<Rightarrow> length (responseTimeData (graph st)) = 51)
   \<and> length (responseTimeData (updateUIAsync_frame 50 full_graph)) = 100"
proof -
  have "case runBatchCalls example_env 51 of
         StartFailed st \<Rightarrow> False
       | Finished st \<Rightarrow> length (responseTimeData (graph st)) = 51"
    using example_run_graph[of 51] by (simp split: run_result.splits)
  moreover have "length (responseTimeData (updateUIAsync_frame 50 full_graph)) = 100"
    by (simp add: updateUIAsync_frame_def full_graph_def js_slice_def Let_def)
  ultimately show ?thesis by (simp add: example_env_fields)
qed

end
